theory Spec2Isabelle
  imports Complex_Main
begin

section \<open>Directional quadtrees of the guided path tracer\<close>

text \<open>
  The development follows \<^verbatim>\<open>mitsuba/src/integrators/path/guided_path.cpp\<close>.
  A \<^verbatim>\<open>QuadTreeNode\<close> holds four sums and four child indices into the node vector
  of the owning \<^verbatim>\<open>DTree\<close>; child index 0 means that the slot is a leaf.
  The node type is polymorphic in the type of the sums: the structural results
  (\<^verbatim>\<open>build\<close>) use nothing but \<open>0\<close> and \<open>+\<close> of that type and so do not depend on any
  law of arithmetic; the numeric results instantiate the sums with \<^typ>\<open>real\<close>, that is,
  \<^verbatim>\<open>Float\<close> is read as exact arithmetic without rounding, infinities or NaN.
\<close>

record 'a QuadTreeNode =
  m_sum :: "'a list"
  m_children :: "nat list"

definition QuadTreeNode_new :: "'a::zero QuadTreeNode" where
  "QuadTreeNode_new = \<lparr>m_sum = [0, 0, 0, 0], m_children = [0, 0, 0, 0]\<rparr>"

definition sum_at :: "'a QuadTreeNode \<Rightarrow> nat \<Rightarrow> 'a" where
  "sum_at n i = m_sum n ! i"

definition child :: "'a QuadTreeNode \<Rightarrow> nat \<Rightarrow> nat" where
  "child n i = m_children n ! i"

definition setSum :: "'a QuadTreeNode \<Rightarrow> nat \<Rightarrow> 'a \<Rightarrow> 'a QuadTreeNode" where
  "setSum n i v = n\<lparr>m_sum := (m_sum n)[i := v]\<rparr>"

definition setSumAll :: "'a QuadTreeNode \<Rightarrow> 'a \<Rightarrow> 'a QuadTreeNode" where
  "setSumAll n v = foldl (\<lambda>m i. setSum m i v) n [0, 1, 2, 3]"

definition setChild :: "'a QuadTreeNode \<Rightarrow> nat \<Rightarrow> nat \<Rightarrow> 'a QuadTreeNode" where
  "setChild n i c = n\<lparr>m_children := (m_children n)[i := c]\<rparr>"

definition isLeaf :: "'a QuadTreeNode \<Rightarrow> nat \<Rightarrow> bool" where
  "isLeaf n i = (child n i = 0)"

text \<open>The loop \<^verbatim>\<open>Float sum = 0; for (j = 0; j < 4; ++j) sum += c.sum(j);\<close>, in this order.\<close>

definition sum4 :: "'a::{zero,plus} QuadTreeNode \<Rightarrow> 'a" where
  "sum4 c = foldl (\<lambda>s j. s + sum_at c j) 0 [0, 1, 2, 3]"

text \<open>The expression \<^verbatim>\<open>sum(0) + sum(1) + sum(2) + sum(3)\<close> used as a denominator.\<close>

definition sum_total :: "'a::plus QuadTreeNode \<Rightarrow> 'a" where
  "sum_total n = sum_at n 0 + sum_at n 1 + sum_at n 2 + sum_at n 3"

subsection \<open>\<^verbatim>\<open>QuadTreeNode::build\<close> and \<^verbatim>\<open>DTree::build\<close>\<close>

text \<open>
  \<^verbatim>\<open>QuadTreeNode::build\<close> recurses through the child indices. The recursion depth is
  bounded by a fuel argument; running out of fuel, or following a child index that
  lies outside the node vector, gives \<open>None\<close>. One loop iteration is \<open>build_slot\<close>:
  it skips a leaf slot, and otherwise builds the child and then stores the sum of the
  child's four sums in the slot.
\<close>

definition build_slot ::
  "('a::{zero,plus} QuadTreeNode list \<Rightarrow> nat \<Rightarrow> 'a QuadTreeNode list option) \<Rightarrow> nat \<Rightarrow>
   'a QuadTreeNode list option \<Rightarrow> nat \<Rightarrow> 'a QuadTreeNode list option" where
  "build_slot rec idx acc i =
     (case acc of
        None \<Rightarrow> None
      | Some nodes \<Rightarrow>
          if isLeaf (nodes ! idx) i then Some nodes
          else
            let c = child (nodes ! idx) i in
            if c < length nodes then
              (case rec nodes c of
                 None \<Rightarrow> None
               | Some nodes' \<Rightarrow> Some (nodes'[idx := setSum (nodes' ! idx) i (sum4 (nodes' ! c))]))
            else None)"

fun QuadTreeNode_build ::
  "nat \<Rightarrow> 'a::{zero,plus} QuadTreeNode list \<Rightarrow> nat \<Rightarrow> 'a QuadTreeNode list option" where
  "QuadTreeNode_build 0 nodes idx = None"
| "QuadTreeNode_build (Suc fuel) nodes idx =
     (if idx < length nodes
      then foldl (build_slot (QuadTreeNode_build fuel) idx) (Some nodes) [0, 1, 2, 3]
      else None)"

record 'a DTree =
  m_nodes :: "'a QuadTreeNode list"
  atomic_sum :: 'a
  atomic_statisticalWeight :: 'a
  m_maxDepth :: int

definition DTree_new :: "'a::zero DTree" where
  "DTree_new = \<lparr>m_nodes = [setSumAll QuadTreeNode_new 0], atomic_sum = 0,
                atomic_statisticalWeight = 0, m_maxDepth = 0\<rparr>"

definition DTree_build :: "nat \<Rightarrow> 'a::{zero,plus} DTree \<Rightarrow> 'a DTree option" where
  "DTree_build fuel t =
     (case QuadTreeNode_build fuel (m_nodes t) 0 of
        None \<Rightarrow> None
      | Some nodes \<Rightarrow> Some (t\<lparr>m_nodes := nodes, atomic_sum := sum4 (nodes ! 0)\<rparr>))"

text \<open>
  The shape every node vector built by this code has: it is not empty, every node has
  four sums and four child indices, and a child index is 0 or points to a later node
  of the vector (children are appended after their parent).
\<close>

definition wf_nodes :: "'a QuadTreeNode list \<Rightarrow> bool" where
  "wf_nodes nodes \<longleftrightarrow>
     nodes \<noteq> [] \<and>
     (\<forall>k \<in> {0 ..< length nodes}.
        length (m_sum (nodes ! k)) = 4 \<and> length (m_children (nodes ! k)) = 4 \<and>
        (\<forall>i \<in> {0 ..< 4}. child (nodes ! k) i = 0 \<or>
                 (k < child (nodes ! k) i \<and> child (nodes ! k) i < length nodes)))"

subsection \<open>Auxiliary notions for the verification of \<^verbatim>\<open>build\<close>\<close>

text \<open>
  \<open>same_shape\<close>: two node vectors with the same child indices and as many sums per
  node. \<open>built nodes k\<close>: every non-leaf slot reachable from node \<open>k\<close> holds the sum
  of the four sums of its child node.
\<close>

definition same_shape :: "'a QuadTreeNode list \<Rightarrow> 'b QuadTreeNode list \<Rightarrow> bool" where
  "same_shape xs ys \<longleftrightarrow>
     map m_children ys = map m_children xs \<and>
     map (\<lambda>n. length (m_sum n)) ys = map (\<lambda>n. length (m_sum n)) xs"

inductive built :: "'a::{zero,plus} QuadTreeNode list \<Rightarrow> nat \<Rightarrow> bool" where
  builtI: "k < length nodes \<Longrightarrow>
     (\<And>i. i < 4 \<Longrightarrow> \<not> isLeaf (nodes ! k) i \<Longrightarrow>
        sum_at (nodes ! k) i = sum4 (nodes ! child (nodes ! k) i) \<and>
        built nodes (child (nodes ! k) i)) \<Longrightarrow>
     built nodes k"

definition slots_built :: "'a::{zero,plus} QuadTreeNode list \<Rightarrow> 'a QuadTreeNode list \<Rightarrow> nat \<Rightarrow> nat \<Rightarrow> bool" where
  "slots_built nodes cur idx j \<longleftrightarrow>
     same_shape nodes cur \<and>
     (\<forall>i < j. \<not> isLeaf (nodes ! idx) i \<longrightarrow>
        sum_at (cur ! idx) i = sum4 (cur ! child (nodes ! idx) i) \<and>
        built cur (child (nodes ! idx) i))"

definition exampleTree :: "real DTree" where
  "exampleTree =
     \<lparr>m_nodes = [\<lparr>m_sum = [0, 1, 0, 2], m_children = [0, 1, 0, 0]\<rparr>,
                 \<lparr>m_sum = [5, 1, 1, 1], m_children = [0, 0, 0, 0]\<rparr>],
      atomic_sum = 0, atomic_statisticalWeight = 3, m_maxDepth = 2\<rparr>"

definition exampleTreeBuilt :: "real DTree" where
  "exampleTreeBuilt =
     \<lparr>m_nodes = [\<lparr>m_sum = [0, 8, 0, 2], m_children = [0, 1, 0, 0]\<rparr>,
                 \<lparr>m_sum = [5, 1, 1, 1], m_children = [0, 0, 0, 0]\<rparr>],
      atomic_sum = 10, atomic_statisticalWeight = 3, m_maxDepth = 2\<rparr>"

section \<open>Majorizing factor and augmented distribution\<close>

text \<open>
  From here on the sums are real numbers. \<^verbatim>\<open>EPSILON\<close> is the constant \<^verbatim>\<open>1e-5f\<close>.
  The three traversals below keep an explicit stack of node pairs, as the source does;
  the head of the list is the top of the stack. An index pair \<open>(first, second)\<close> names a
  node and, when \<open>second\<close> is not negative, the one slot of that node that the
  traversal stays in.
\<close>

definition EPSILON :: real where
  "EPSILON = 1 / 100000"

definition pair_denom :: "real QuadTreeNode \<Rightarrow> int \<Rightarrow> real" where
  "pair_denom node second = (if second < 0 then sum_total node else sum_at node (nat second) * 4)"

definition pair_slot :: "int \<Rightarrow> nat \<Rightarrow> nat" where
  "pair_slot second i = (if second < 0 then i else nat second)"

definition slot_pdf :: "real \<Rightarrow> real QuadTreeNode \<Rightarrow> real \<Rightarrow> nat \<Rightarrow> real" where
  "slot_pdf factor node denom ci =
     (if denom < EPSILON then 0 else factor * 4 * sum_at node ci / denom)"

definition next_index :: "real QuadTreeNode list \<Rightarrow> nat \<times> int \<Rightarrow> nat \<Rightarrow> nat \<times> int" where
  "next_index nodes idx ci =
     (if isLeaf (nodes ! fst idx) ci then (fst idx, int ci)
      else (child (nodes ! fst idx) ci, - 1))"

subsection \<open>\<^verbatim>\<open>DTree::getMajorizingFactor\<close>\<close>

record NodePairM =
  nodeIndex :: "nat \<times> int"
  otherNodeIndex :: "nat \<times> int"
  nodeFactor :: real
  otherNodeFactor :: real
  nodeLevel :: int
  otherNodeLevel :: int

type_synonym mf_state = "(real \<times> real) \<times> real \<times> NodePairM list"

text \<open>
  One iteration of the inner \<^verbatim>\<open>for\<close> loop: the state is the pdf pair, the largest
  scaling factor so far and the stack.
\<close>

definition mf_slot ::
  "real QuadTreeNode list \<Rightarrow> real QuadTreeNode list \<Rightarrow> NodePairM \<Rightarrow> mf_state \<Rightarrow> nat \<Rightarrow> mf_state" where
  "mf_slot this other np s i =
     (case s of (pdfPair, largestScalingFactor, pairStack) \<Rightarrow>
      let node = this ! fst (nodeIndex np);
          otherNode = other ! fst (otherNodeIndex np);
          denom = pair_denom node (snd (nodeIndex np));
          otherDenom = pair_denom otherNode (snd (otherNodeIndex np));
          childIdx = pair_slot (snd (nodeIndex np)) i;
          otherChildIdx = pair_slot (snd (otherNodeIndex np)) i;
          pdf = slot_pdf (nodeFactor np) node denom childIdx;
          otherPdf = slot_pdf (otherNodeFactor np) otherNode otherDenom otherChildIdx
      in if isLeaf node childIdx \<or> isLeaf otherNode otherChildIdx then
           let pdf' = max pdf EPSILON;
               otherPdf' = max otherPdf EPSILON;
               scalingFactor = otherPdf' / pdf'
           in if scalingFactor > largestScalingFactor
              then ((pdf', otherPdf'), scalingFactor, pairStack)
              else (pdfPair, largestScalingFactor, pairStack)
         else
           (pdfPair, largestScalingFactor,
            \<lparr>nodeIndex = next_index this (nodeIndex np) childIdx,
             otherNodeIndex = next_index other (otherNodeIndex np) otherChildIdx,
             nodeFactor = pdf, otherNodeFactor = otherPdf,
             nodeLevel = nodeLevel np + 1, otherNodeLevel = otherNodeLevel np + 1\<rparr> # pairStack))"

text \<open>
  The \<^verbatim>\<open>while\<close> loop, with fuel for the number of iterations. Reading a node outside
  one of the two node vectors gives \<open>None\<close>, as does running out of fuel.
\<close>

fun mf_loop ::
  "nat \<Rightarrow> real QuadTreeNode list \<Rightarrow> real QuadTreeNode list \<Rightarrow> mf_state \<Rightarrow> (real \<times> real) option" where
  "mf_loop fuel this other (pdfPair, largestScalingFactor, []) = Some pdfPair"
| "mf_loop 0 this other (pdfPair, largestScalingFactor, np # pairStack) = None"
| "mf_loop (Suc fuel) this other (pdfPair, largestScalingFactor, np # pairStack) =
     (if fst (nodeIndex np) < length this \<and> fst (otherNodeIndex np) < length other
      then mf_loop fuel this other
             (foldl (mf_slot this other np) (pdfPair, largestScalingFactor, pairStack) [0, 1, 2, 3])
      else None)"

definition getMajorizingFactor :: "nat \<Rightarrow> real DTree \<Rightarrow> real DTree \<Rightarrow> (real \<times> real) option" where
  "getMajorizingFactor fuel this other =
     mf_loop fuel (m_nodes this) (m_nodes other)
       ((1, 1), 0,
        [\<lparr>nodeIndex = (0, - 1), otherNodeIndex = (0, - 1), nodeFactor = 1, otherNodeFactor = 1,
          nodeLevel = 0, otherNodeLevel = 0\<rparr>])"

text \<open>The factor \<open>A\<close> as \<^verbatim>\<open>buildAugmented\<close> forms it from the returned pair.\<close>

definition majorizingA :: "real \<times> real \<Rightarrow> real" where
  "majorizingA p = (if fst p < EPSILON \<and> snd p < EPSILON then 1 else snd p / fst p)"

subsection \<open>\<^verbatim>\<open>DTree::validateMajorizingFactor\<close>\<close>

record NodePairV =
  v_nodeIndex :: "nat \<times> int"
  v_otherNodeIndex :: "nat \<times> int"
  v_nodeFactor :: real
  v_otherNodeFactor :: real

text \<open>
  The inner \<^verbatim>\<open>for\<close> loop; \<open>None\<close> is the \<^verbatim>\<open>return false\<close> in its body, \<open>Some\<close> the
  stack after the four iterations.
\<close>

fun vmf_slots ::
  "real QuadTreeNode list \<Rightarrow> real QuadTreeNode list \<Rightarrow> real \<Rightarrow> NodePairV \<Rightarrow>
   NodePairV list \<Rightarrow> nat list \<Rightarrow> NodePairV list option" where
  "vmf_slots this other factor np pairStack [] = Some pairStack"
| "vmf_slots this other factor np pairStack (i # is) =
     (let node = this ! fst (v_nodeIndex np);
          otherNode = other ! fst (v_otherNodeIndex np);
          denom = pair_denom node (snd (v_nodeIndex np));
          otherDenom = pair_denom otherNode (snd (v_otherNodeIndex np));
          childIdx = pair_slot (snd (v_nodeIndex np)) i;
          otherChildIdx = pair_slot (snd (v_otherNodeIndex np)) i;
          pdf = slot_pdf (v_nodeFactor np) node denom childIdx;
          otherPdf = slot_pdf (v_otherNodeFactor np) otherNode otherDenom otherChildIdx
      in if isLeaf node childIdx \<and> isLeaf otherNode otherChildIdx then
           let mpdf = factor * pdf
           in if mpdf - otherPdf < - EPSILON then None
              else vmf_slots this other factor np pairStack is
         else
           vmf_slots this other factor np
             (\<lparr>v_nodeIndex = next_index this (v_nodeIndex np) childIdx,
               v_otherNodeIndex = next_index other (v_otherNodeIndex np) otherChildIdx,
               v_nodeFactor = pdf, v_otherNodeFactor = otherPdf\<rparr> # pairStack) is)"

fun vmf_loop ::
  "nat \<Rightarrow> real QuadTreeNode list \<Rightarrow> real QuadTreeNode list \<Rightarrow> real \<Rightarrow> NodePairV list \<Rightarrow> bool option" where
  "vmf_loop fuel this other factor [] = Some True"
| "vmf_loop 0 this other factor (np # pairStack) = None"
| "vmf_loop (Suc fuel) this other factor (np # pairStack) =
     (if fst (v_nodeIndex np) < length this \<and> fst (v_otherNodeIndex np) < length other
      then (case vmf_slots this other factor np pairStack [0, 1, 2, 3] of
              None \<Rightarrow> Some False
            | Some pairStack' \<Rightarrow> vmf_loop fuel this other factor pairStack')
      else None)"

definition validateMajorizingFactor :: "nat \<Rightarrow> real DTree \<Rightarrow> real DTree \<Rightarrow> real \<Rightarrow> bool option" where
  "validateMajorizingFactor fuel this other factor =
     vmf_loop fuel (m_nodes this) (m_nodes other) factor
       [\<lparr>v_nodeIndex = (0, - 1), v_otherNodeIndex = (0, - 1),
         v_nodeFactor = 1, v_otherNodeFactor = 1\<rparr>]"

subsection \<open>\<^verbatim>\<open>DTree::computeIntegral\<close>\<close>

type_synonym ci_state = "real \<times> (real \<times> nat) list"

definition ci_slot :: "real QuadTreeNode \<Rightarrow> real \<Rightarrow> ci_state \<Rightarrow> nat \<Rightarrow> ci_state" where
  "ci_slot curr_node factor s i =
     (case s of (integral, nodeStack) \<Rightarrow>
        if isLeaf curr_node i then (integral + sum_at curr_node i * factor, nodeStack)
        else (integral, (factor, child curr_node i) # nodeStack))"

fun ci_loop :: "nat \<Rightarrow> real QuadTreeNode list \<Rightarrow> ci_state \<Rightarrow> real option" where
  "ci_loop fuel nodes (integral, []) = Some integral"
| "ci_loop 0 nodes (integral, sn # nodeStack) = None"
| "ci_loop (Suc fuel) nodes (integral, (stackFactor, stackIdx) # nodeStack) =
     (if stackIdx < length nodes
      then ci_loop fuel nodes
             (foldl (ci_slot (nodes ! stackIdx) (stackFactor / 4)) (integral, nodeStack) [0, 1, 2, 3])
      else None)"

definition computeIntegral :: "nat \<Rightarrow> real DTree \<Rightarrow> real option" where
  "computeIntegral fuel t = ci_loop fuel (m_nodes t) (0, [(1, 0)])"

subsection \<open>\<^verbatim>\<open>DTree::buildAugmented\<close>\<close>

definition computeAugmentedPdf :: "real \<Rightarrow> real \<Rightarrow> real \<Rightarrow> real" where
  "computeAugmentedPdf oldPdf newPdf A = max 0 ((A * newPdf - oldPdf) / (A - 1))"

record NodePairA =
  newNodeIndex :: "nat \<times> int"
  oldNodeIndex :: "nat \<times> int"
  newNodeFactor :: real
  oldNodeFactor :: real
  augNodeIdx :: nat

type_synonym ba_state = "real QuadTreeNode list \<times> NodePairA list"

text \<open>
  One iteration of the inner loop of \<^verbatim>\<open>buildAugmented\<close>; the state is the node vector
  under construction and the stack. The cast of the vector's size to \<^verbatim>\<open>uint16_t\<close> is
  the remainder modulo \<open>2 ^ 16\<close>.
\<close>

definition ba_slot ::
  "real QuadTreeNode list \<Rightarrow> real QuadTreeNode list \<Rightarrow> real \<Rightarrow> NodePairA \<Rightarrow> ba_state \<Rightarrow> nat \<Rightarrow> ba_state" where
  "ba_slot oldDist newDist A np s i =
     (case s of (nodes, pairStack) \<Rightarrow>
      let oldNode = oldDist ! fst (oldNodeIndex np);
          newNode = newDist ! fst (newNodeIndex np);
          oldDenom = pair_denom oldNode (snd (oldNodeIndex np));
          newDenom = pair_denom newNode (snd (newNodeIndex np));
          oldChildIdx = pair_slot (snd (oldNodeIndex np)) i;
          newChildIdx = pair_slot (snd (newNodeIndex np)) i;
          oldPdf = slot_pdf (oldNodeFactor np) oldNode oldDenom oldChildIdx;
          newPdf = slot_pdf (newNodeFactor np) newNode newDenom newChildIdx;
          pdf = computeAugmentedPdf oldPdf newPdf A;
          s' = (if \<not> (isLeaf newNode newChildIdx \<or> isLeaf oldNode oldChildIdx) then
                  let nodes1 = nodes[augNodeIdx np := setChild (nodes ! augNodeIdx np) i (length nodes mod 65536)];
                      nodes2 = nodes1 @ [setSumAll QuadTreeNode_new (pdf / 4)]
                  in (nodes2,
                      \<lparr>newNodeIndex = next_index newDist (newNodeIndex np) newChildIdx,
                       oldNodeIndex = next_index oldDist (oldNodeIndex np) oldChildIdx,
                       newNodeFactor = newPdf, oldNodeFactor = oldPdf,
                       augNodeIdx = length nodes2 - 1\<rparr> # pairStack)
                else (nodes, pairStack))
      in (case s' of (nodes', pairStack') \<Rightarrow>
            (nodes'[augNodeIdx np := setSum (nodes' ! augNodeIdx np) i pdf], pairStack')))"



section \<open>Point queries: \<^verbatim>\<open>pdf\<close> and \<^verbatim>\<open>recordIrradiance\<close>\<close>

text \<open>
  The recursive member functions of \<^verbatim>\<open>QuadTreeNode\<close> below take fuel for the
  recursion depth. What ends a call without a result is a value of \<open>failure\<close>: the fuel
  ran out, a child index lies outside the node vector, or the \<^verbatim>\<open>SAssert\<close> on the point
  failed.
\<close>

datatype failure = OutOfFuel | OutOfRange | AssertionFailed

type_synonym Point2 = "real \<times> real"

definition in_unit_square :: "Point2 \<Rightarrow> bool" where
  "in_unit_square p \<longleftrightarrow> fst p \<ge> 0 \<and> fst p \<le> 1 \<and> snd p \<ge> 0 \<and> snd p \<le> 1"

text \<open>One coordinate of \<^verbatim>\<open>childIndex\<close>: the bit it contributes and its new value.\<close>

definition childIndex_axis :: "real \<Rightarrow> nat \<times> real" where
  "childIndex_axis c = (if c < 1 / 2 then (0, c * 2) else (1, (c - 1 / 2) * 2))"

definition childIndex :: "Point2 \<Rightarrow> nat \<times> Point2" where
  "childIndex p =
     (case childIndex_axis (fst p) of (b0, x) \<Rightarrow>
      case childIndex_axis (snd p) of (b1, y) \<Rightarrow> (b0 + 2 * b1, (x, y)))"

subsection \<open>\<^verbatim>\<open>QuadTreeNode::pdf\<close>\<close>

text \<open>The result is the returned value and the final value of the reference \<^verbatim>\<open>curr_level\<close>.\<close>

fun QuadTreeNode_pdf ::
  "nat \<Rightarrow> real QuadTreeNode list \<Rightarrow> nat \<Rightarrow> Point2 \<Rightarrow> int \<Rightarrow> int \<Rightarrow> failure + (real \<times> int)" where
  "QuadTreeNode_pdf 0 nodes idx p level curr_level = Inl OutOfFuel"
| "QuadTreeNode_pdf (Suc fuel) nodes idx p level curr_level =
     (if \<not> idx < length nodes then Inl OutOfRange
      else if \<not> in_unit_square p then Inl AssertionFailed
      else
        (case childIndex p of (index, p') \<Rightarrow>
           let node = nodes ! idx in
           if \<not> (sum_at node index > 0) then Inr (0, curr_level)
           else
             let factor = 4 * sum_at node index / sum_total node in
             if isLeaf node index \<or> level = curr_level then Inr (factor, curr_level)
             else
               (case QuadTreeNode_pdf fuel nodes (child node index) p' level (curr_level + 1) of
                  Inl e \<Rightarrow> Inl e
                | Inr (r, c) \<Rightarrow> Inr (factor * r, c))))"

text \<open>
  The descent the claim speaks of, following its words: the slots selected by the point
  on the way down, ending at a leaf slot or where \<^verbatim>\<open>curr\<close> equals \<^verbatim>\<open>level\<close>.
\<close>

fun descent ::
  "nat \<Rightarrow> real QuadTreeNode list \<Rightarrow> nat \<Rightarrow> Point2 \<Rightarrow> int \<Rightarrow> int \<Rightarrow> (nat \<times> nat) list" where
  "descent 0 nodes idx p level curr_level = []"
| "descent (Suc fuel) nodes idx p level curr_level =
     (case childIndex p of (index, p') \<Rightarrow>
        (idx, index) #
        (if isLeaf (nodes ! idx) index \<or> level = curr_level then []
         else descent fuel nodes (child (nodes ! idx) index) p' level (curr_level + 1)))"

definition slot_factor :: "real QuadTreeNode list \<Rightarrow> nat \<times> nat \<Rightarrow> real" where
  "slot_factor nodes s = 4 * sum_at (nodes ! fst s) (snd s) / sum_total (nodes ! fst s)"

definition dead_slot :: "real QuadTreeNode list \<Rightarrow> nat \<times> nat \<Rightarrow> bool" where
  "dead_slot nodes s \<longleftrightarrow> sum_at (nodes ! fst s) (snd s) \<le> 0"

subsection \<open>\<^verbatim>\<open>DTree::recordIrradiance\<close>\<close>

text \<open>
  The two \<^verbatim>\<open>Float\<close> arguments that \<^verbatim>\<open>recordIrradiance\<close> tests with \<^verbatim>\<open>std::isfinite\<close>
  may be infinite or NaN; they are values of \<open>Float\<close>. A comparison with NaN is false.
\<close>

datatype Float = Finite real | PosInf | NegInf | NaN











subsection \<open>Auxiliary notions for the traversals\<close>

text \<open>
  A stack entry of \<^verbatim>\<open>getMajorizingFactor\<close> is in order when both its indices lie in
  their node vectors and neither side stays in a slot. Its rank bounds the depth still
  below it; \<open>mf_measure\<close> of a stack bounds the iterations the loop still makes.
\<close>

definition mf_entry_ok :: "real QuadTreeNode list \<Rightarrow> real QuadTreeNode list \<Rightarrow> NodePairM \<Rightarrow> bool" where
  "mf_entry_ok this other np \<longleftrightarrow>
     fst (nodeIndex np) < length this \<and> fst (otherNodeIndex np) < length other \<and>
     snd (nodeIndex np) < 0 \<and> snd (otherNodeIndex np) < 0"

definition mf_rank :: "real QuadTreeNode list \<Rightarrow> real QuadTreeNode list \<Rightarrow> NodePairM \<Rightarrow> nat" where
  "mf_rank this other np =
     (length this - fst (nodeIndex np)) + (length other - fst (otherNodeIndex np))"

definition mf_measure :: "real QuadTreeNode list \<Rightarrow> real QuadTreeNode list \<Rightarrow> NodePairM list \<Rightarrow> nat" where
  "mf_measure this other st = sum_list (map (\<lambda>np. 5 ^ mf_rank this other np) st)"

definition pair_pos :: "mf_state \<Rightarrow> bool" where
  "pair_pos s \<longleftrightarrow> EPSILON \<le> fst (fst s) \<and> EPSILON \<le> snd (fst s)"

text \<open>
  \<open>node_pdf\<close> is the pdf the traversals compute for slot \<open>i\<close> of node \<open>k\<close> from the
  factor of the node; \<open>floored_ratio\<close> is the ratio \<^verbatim>\<open>getMajorizingFactor\<close> forms at a
  leaf. \<open>mf_inv\<close> is the invariant of its loop: both components of the pair are at least
  \<^verbatim>\<open>EPSILON\<close> and their ratio is the largest scaling factor so far.
\<close>

definition node_pdf :: "real QuadTreeNode list \<Rightarrow> nat \<Rightarrow> real \<Rightarrow> nat \<Rightarrow> real" where
  "node_pdf nodes k factor i = slot_pdf factor (nodes ! k) (sum_total (nodes ! k)) i"



definition vmf_aligned :: "NodePairV \<Rightarrow> nat \<Rightarrow> bool" where
  "vmf_aligned np k \<longleftrightarrow> v_nodeIndex np = (k, - 1) \<and> v_otherNodeIndex np = (k, - 1)"

definition vmf_measure :: "real QuadTreeNode list \<Rightarrow> NodePairV list \<Rightarrow> nat" where
  "vmf_measure this st = sum_list (map (\<lambda>np. 5 ^ (length this - fst (v_nodeIndex np))) st)"

definition treeRefinedEven :: "real DTree" where
  "treeRefinedEven =
     \<lparr>m_nodes = [\<lparr>m_sum = [4, 4, 4, 4], m_children = [1, 0, 0, 0]\<rparr>,
                 \<lparr>m_sum = [1, 1, 1, 1], m_children = [0, 0, 0, 0]\<rparr>],
      atomic_sum = 16, atomic_statisticalWeight = 1, m_maxDepth = 2\<rparr>"

subsection \<open>Example trees\<close>

text \<open>
  \<open>treeFlat\<close> is a root with four equal leaves; \<open>treeRefined\<close> has the same four equal
  quadrants and the first one subdivided unevenly. All values are small integers, which
  single-precision arithmetic represents exactly.
\<close>

definition treeRefined :: "real DTree" where
  "treeRefined =
     \<lparr>m_nodes = [\<lparr>m_sum = [8, 8, 8, 8], m_children = [1, 0, 0, 0]\<rparr>,
                 \<lparr>m_sum = [5, 1, 1, 1], m_children = [0, 0, 0, 0]\<rparr>],
      atomic_sum = 32, atomic_statisticalWeight = 1, m_maxDepth = 2\<rparr>"

definition treeFlat :: "real DTree" where
  "treeFlat =
     \<lparr>m_nodes = [\<lparr>m_sum = [1, 1, 1, 1], m_children = [0, 0, 0, 0]\<rparr>],
      atomic_sum = 4, atomic_statisticalWeight = 1, m_maxDepth = 1\<rparr>"

definition treeSkewed :: "real DTree" where
  "treeSkewed =
     \<lparr>m_nodes = [\<lparr>m_sum = [3, 1, 2, 2], m_children = [0, 0, 0, 0]\<rparr>],
      atomic_sum = 8, atomic_statisticalWeight = 1, m_maxDepth = 1\<rparr>"

definition treeHole :: "real DTree" where
  "treeHole =
     \<lparr>m_nodes = [\<lparr>m_sum = [0, 1, 1, 1], m_children = [0, 0, 0, 0]\<rparr>],
      atomic_sum = 3, atomic_statisticalWeight = 1, m_maxDepth = 1\<rparr>"


section \<open>\<^verbatim>\<open>DTreeWrapper\<close> and the spatial tree\<close>

text \<open>
  The sampler is a stream of numbers with a read position; \<^verbatim>\<open>next1D\<close> returns the
  number at the position and advances it.
\<close>

record Sampler =
  s_draws :: "nat \<Rightarrow> real"
  s_pos :: nat

definition next1D :: "Sampler \<Rightarrow> real \<times> Sampler" where
  "next1D s = (s_draws s (s_pos s), s\<lparr>s_pos := s_pos s + 1\<rparr>)"

record AdamOptimizer =
  adam_iter :: int
  firstMoment :: real
  secondMoment :: real
  adam_variable :: real
  batchAccumulation :: real
  batchGradient :: real
  learningRate :: real
  batchSize :: int
  adam_epsilon :: real
  beta1 :: real
  beta2 :: real

definition AdamOptimizer_new :: "real \<Rightarrow> AdamOptimizer" where
  "AdamOptimizer_new lr =
     \<lparr>adam_iter = 0, firstMoment = 0, secondMoment = 0, adam_variable = 0,
      batchAccumulation = 0, batchGradient = 0,
      learningRate = lr, batchSize = 1, adam_epsilon = 1 / 100000000,
      beta1 = 9 / 10, beta2 = 999 / 1000\<rparr>"

text \<open>
  The spin lock of a \<^verbatim>\<open>DTreeWrapper\<close> is left out: the model is sequential, and the
  assignment operator of the lock copies nothing. \<open>FLT_MAX\<close> is
  \<^verbatim>\<open>std::numeric_limits<float>::max()\<close>.
\<close>

definition FLT_MAX :: real where
  "FLT_MAX = (2 - 1 / 2 ^ 23) * 2 ^ 127"

record DTreeWrapper =
  building :: "real DTree"
  sampling :: "real DTree"
  previous :: "real DTree"
  augmented :: "real DTree"
  current_samples :: nat
  req_augmented_samples :: nat
  weighted_previous_samples :: real
  B :: real
  m_rejPdfPair :: "real \<times> real"
  bsdfSamplingFractionOptimizer :: AdamOptimizer
  min_nzradiance :: real

definition DTreeWrapper_new :: DTreeWrapper where
  "DTreeWrapper_new =
     \<lparr>building = DTree_new, sampling = DTree_new, previous = DTree_new, augmented = DTree_new,
      current_samples = 0, req_augmented_samples = 0, weighted_previous_samples = 0, B = 0,
      m_rejPdfPair = (1, 1), bsdfSamplingFractionOptimizer = AdamOptimizer_new (1 / 100),
      min_nzradiance = FLT_MAX\<rparr>"

definition statisticalWeightBuilding :: "DTreeWrapper \<Rightarrow> real" where
  "statisticalWeightBuilding w = atomic_statisticalWeight (building w)"

definition setStatisticalWeightBuilding :: "DTreeWrapper \<Rightarrow> real \<Rightarrow> DTreeWrapper" where
  "setStatisticalWeightBuilding w v = w\<lparr>building := (building w)\<lparr>atomic_statisticalWeight := v\<rparr>\<rparr>"

subsection \<open>\<^verbatim>\<open>DTreeWrapper::computeRequiredSamples\<close>\<close>

text \<open>
  The conversions of a \<^verbatim>\<open>float\<close> to \<^verbatim>\<open>int\<close> and to \<^verbatim>\<open>std::uint64_t\<close> truncate
  towards zero and are undefined when the truncated value does not fit the target type;
  that case is \<open>None\<close>.
\<close>

definition trunc_real :: "real \<Rightarrow> int" where
  "trunc_real r = (if 0 \<le> r then \<lfloor>r\<rfloor> else \<lceil>r\<rceil>)"

definition float_to_int :: "real \<Rightarrow> int option" where
  "float_to_int r =
     (if - (2 ^ 31) \<le> trunc_real r \<and> trunc_real r < 2 ^ 31 then Some (trunc_real r) else None)"

definition float_to_uint64 :: "real \<Rightarrow> nat option" where
  "float_to_uint64 r =
     (if 0 \<le> trunc_real r \<and> trunc_real r < 2 ^ 64 then Some (nat (trunc_real r)) else None)"

definition computeRequiredSamples ::
  "DTreeWrapper \<Rightarrow> Sampler \<Rightarrow> (DTreeWrapper \<times> Sampler) option" where
  "computeRequiredSamples w sampler =
     (if B w < EPSILON then Some (w\<lparr>req_augmented_samples := 0\<rparr>, sampler)
      else
        let req = B w * weighted_previous_samples w
        in (case float_to_int req of
              None \<Rightarrow> None
            | Some ireq \<Rightarrow>
                let frac = req - real_of_int ireq
                in (case float_to_uint64 req of
                      None \<Rightarrow> None
                    | Some n \<Rightarrow>
                        (case next1D sampler of (u, sampler') \<Rightarrow>
                           if u < frac
                           then Some (w\<lparr>req_augmented_samples := (n + 1) mod 2 ^ 64\<rparr>, sampler')
                           else Some (w\<lparr>req_augmented_samples := n\<rparr>, sampler')))))"

subsection \<open>\<^verbatim>\<open>STree::subdivide\<close>\<close>

text \<open>
  An \<^verbatim>\<open>STreeNode\<close>; its fields carry the prefix \<open>st_\<close> to keep them apart from
  the quadtree's and from the variables of the same names. The axis only takes the values 0, 1 and 2, on
  which the remainder of C++ and \<open>mod\<close> agree.
\<close>

record STreeNode =
  st_isLeaf :: bool
  st_dTree :: DTreeWrapper
  st_axis :: int
  st_children :: "nat list"
  st_level :: int

definition STreeNode_new :: STreeNode where
  "STreeNode_new =
     \<lparr>st_isLeaf = True, st_dTree = DTreeWrapper_new, st_axis = 0, st_children = [0, 0], st_level = 0\<rparr>"

definition STree_clear :: "STreeNode list" where
  "STree_clear = [STreeNode_new]"

definition UINT32_MAX :: nat where
  "UINT32_MAX = 2 ^ 32 - 1"

text \<open>
  The body of the loop over the two children: child \<open>i\<close> is the node at index
  \<open>size - 2 + i\<close> of the vector after the resize.
\<close>

definition subdivide_child :: "nat \<Rightarrow> STreeNode list \<Rightarrow> nat \<Rightarrow> STreeNode list" where
  "subdivide_child nodeIdx nodes i =
     (let idx = length nodes - 2 + i;
          cur = nodes ! nodeIdx;
          nodes1 = nodes[nodeIdx := cur\<lparr>st_children := (st_children cur)[i := idx]\<rparr>];
          cur1 = nodes1 ! nodeIdx;
          c = nodes1 ! idx;
          c1 = c\<lparr>st_axis := (st_axis cur1 + 1) mod 3, st_dTree := st_dTree cur1,
                 st_level := st_level cur1 + 1\<rparr>;
          c2 = c1\<lparr>st_dTree := setStatisticalWeightBuilding (st_dTree c1)
                                  (statisticalWeightBuilding (st_dTree c1) / 2)\<rparr>
      in nodes1[idx := c2])"

text \<open>
  \<^verbatim>\<open>STree::subdivide(nodeIdx, nodes)\<close>. The vector grows by two nodes before the
  capacity test, so the two nodes stay in the vector when the test fails. An index
  outside the vector is \<open>None\<close>.
\<close>

definition subdivide :: "nat \<Rightarrow> STreeNode list \<Rightarrow> STreeNode list option" where
  "subdivide nodeIdx nodes =
     (let nodes1 = nodes @ [STreeNode_new, STreeNode_new]
      in if length nodes1 > UINT32_MAX then Some nodes1
         else if nodeIdx < length nodes1 then
           let nodes2 = foldl (subdivide_child nodeIdx) nodes1 [0, 1];
               cur = nodes2 ! nodeIdx
           in Some (nodes2[nodeIdx := cur\<lparr>st_isLeaf := False, st_dTree := DTreeWrapper_new\<rparr>])
         else None)"

text \<open>
  The STrees the integrator can reach: it starts from \<^verbatim>\<open>clear()\<close>, subdivides leaves
  (\<^verbatim>\<open>subdivideAll\<close> and \<^verbatim>\<open>refine\<close> test \<^verbatim>\<open>isLeaf\<close> first) and changes the
  \<^verbatim>\<open>DTreeWrapper\<close> of leaves (recording, reset and build go through leaves only).
\<close>

inductive reachable :: "STreeNode list \<Rightarrow> bool" where
  reach_clear: "reachable STree_clear"
| reach_subdivide:
    "reachable nodes \<Longrightarrow> k < length nodes \<Longrightarrow> st_isLeaf (nodes ! k) \<Longrightarrow>
     subdivide k nodes = Some nodes' \<Longrightarrow> reachable nodes'"
| reach_wrapper:
    "reachable nodes \<Longrightarrow> k < length nodes \<Longrightarrow> st_isLeaf (nodes ! k) \<Longrightarrow>
     reachable (nodes[k := (nodes ! k)\<lparr>st_dTree := w\<rparr>])"

text \<open>What the claim says of one subdivided node \<open>k\<close> with its two children.\<close>

definition axis_cycles :: "STreeNode list \<Rightarrow> nat \<Rightarrow> bool" where
  "axis_cycles nodes k \<longleftrightarrow>
     (\<forall>i \<in> {0 ..< 2}.
        st_children (nodes ! k) ! i < length nodes \<and>
        st_axis (nodes ! (st_children (nodes ! k) ! i)) = (st_axis (nodes ! k) + 1) mod 3)"

definition exampleSTree :: "STreeNode list" where
  "exampleSTree =
     [STreeNode_new\<lparr>st_dTree := setStatisticalWeightBuilding DTreeWrapper_new 6\<rparr>]"

section \<open>Replay of retained paths\<close>

text \<open>
  The replay passes of \<^verbatim>\<open>GuidedPathTracer\<close> walk over the buffer \<^verbatim>\<open>m_samplePaths\<close>. The
  model keeps the buffer, the sampler and the SD-tree as the state of a pass and runs
  the iterations of the \<^verbatim>\<open>omp parallel for\<close> loop one after the other in index order.
  The SD-tree is a state of an arbitrary type, reached through the three operations of
  \<open>ReplayEnv\<close>: \<^verbatim>\<open>computePdf\<close> (the new \<^verbatim>\<open>woPdf\<close> and the \<^verbatim>\<open>dTreePdf\<close> of a vertex),
  \<^verbatim>\<open>getAugmentedMultiplier\<close> of the wrapper of a vertex, and the commit of a replayed
  path (\<^verbatim>\<open>computeRadiance\<close>, \<^verbatim>\<open>computeNee\<close> and \<^verbatim>\<open>Vertex::commit\<close> of every vertex),
  which reads the path and the vertices and writes the SD-tree and the sampler only.
  A \<^verbatim>\<open>Spectrum\<close> has three channels. The fields of the records carry a prefix.
\<close>

type_synonym Spectrum = "real \<times> real \<times> real"

type_synonym Vector3 = "real \<times> real \<times> real"

definition spectrum_scale :: "Spectrum \<Rightarrow> real \<Rightarrow> Spectrum" where
  "spectrum_scale s c = (case s of (r, g, b) \<Rightarrow> (r * c, g * c, b * c))"

definition spectrum_div :: "Spectrum \<Rightarrow> real \<Rightarrow> Spectrum" where
  "spectrum_div s c = (case s of (r, g, b) \<Rightarrow> (r / c, g / c, b / c))"

definition spectrum_mul :: "Spectrum \<Rightarrow> Spectrum \<Rightarrow> Spectrum" where
  "spectrum_mul s t = (case s of (r, g, b) \<Rightarrow> case t of (r', g', b') \<Rightarrow> (r * r', g * g', b * b'))"

definition spectrum_max :: "Spectrum \<Rightarrow> real" where
  "spectrum_max s = (case s of (r, g, b) \<Rightarrow> max (max r g) b)"

record RVertex =
  rv_o :: Vector3
  rv_d :: Vector3
  rv_time :: real
  rv_bsdfVal :: Spectrum
  rv_bsdfPdf :: real
  rv_woPdf :: real
  rv_isDelta :: bool
  rv_sc :: real

record RadRecord =
  rr_pos :: int
  rr_L :: Spectrum
  rr_pdf :: real

record NEERecord =
  nee_pos :: int
  nee_L :: Spectrum
  nee_pdf :: real
  nee_wo :: Vector3
  nee_bsdfVal :: Spectrum
  nee_bsdfPdf :: real

record RPath =
  rp_path :: "RVertex list"
  rp_radiance_records :: "RadRecord list"
  rp_nee_records :: "NEERecord list"
  rp_sample_pos :: Point2
  rp_active :: bool
  rp_iter :: int

record Vertex =
  vx_ray_o :: Vector3
  vx_ray_d :: Vector3
  vx_ray_time :: real
  vx_throughput :: Spectrum
  vx_bsdfVal :: Spectrum
  vx_radiance :: Spectrum
  vx_woPdf :: real
  vx_bsdfPdf :: real
  vx_dTreePdf :: real
  vx_isDelta :: bool

record 'sd ReplayEnv =
  env_computePdf :: "'sd \<Rightarrow> RVertex \<Rightarrow> real \<times> real"
  env_augmentedMultiplier :: "'sd \<Rightarrow> RVertex \<Rightarrow> real"
  env_commit :: "'sd \<Rightarrow> RPath \<Rightarrow> Vertex list \<Rightarrow> Sampler \<Rightarrow> 'sd \<times> Sampler"
  env_rrDepth :: int

type_synonym 'sd replay_state = "RPath list \<times> 'sd \<times> Sampler"

text \<open>The Russian-roulette division at the end of the loop body over the vertices.\<close>

definition roulette :: "int \<Rightarrow> nat \<Rightarrow> bool \<Rightarrow> Spectrum \<Rightarrow> Spectrum" where
  "roulette rrDepth j isDelta throughput =
     (if int j \<ge> rrDepth \<and> \<not> isDelta
      then spectrum_div throughput (max (1 / 10) (min (spectrum_max throughput) (99 / 100)))
      else throughput)"

definition make_vertex :: "RVertex \<Rightarrow> Spectrum \<Rightarrow> real \<Rightarrow> real \<Rightarrow> Vertex" where
  "make_vertex cv throughput woPdf dTreePdf =
     \<lparr>vx_ray_o = rv_o cv, vx_ray_d = rv_d cv, vx_ray_time = rv_time cv,
      vx_throughput = throughput, vx_bsdfVal = rv_bsdfVal cv, vx_radiance = (0, 0, 0),
      vx_woPdf = woPdf, vx_bsdfPdf = rv_bsdfPdf cv, vx_dTreePdf = dTreePdf,
      vx_isDelta = rv_isDelta cv\<rparr>"

definition deactivate :: "RPath \<Rightarrow> RPath" where
  "deactivate p = p\<lparr>rp_active := False, rp_path := [], rp_nee_records := [],
                     rp_radiance_records := []\<rparr>"

subsection \<open>\<^verbatim>\<open>reweightAugmentHybrid\<close>\<close>

text \<open>
  The loop over the vertices of one path, from vertex \<open>j\<close> on: the result is the
  vertices of the path as the loop leaves them, the \<^verbatim>\<open>Vertex\<close> list it builds, and
  whether it terminated the path.
\<close>

fun reweightAugment_vertices ::
  "'sd ReplayEnv \<Rightarrow> 'sd \<Rightarrow> nat \<Rightarrow> Spectrum \<Rightarrow> RVertex list \<Rightarrow> RVertex list \<times> Vertex list \<times> bool" where
  "reweightAugment_vertices env sd j throughput [] = ([], [], False)"
| "reweightAugment_vertices env sd j throughput (curr_vertex # rest) =
     (case env_computePdf env sd curr_vertex of (nwo, dTreePdf) \<Rightarrow>
        if nwo < EPSILON then (curr_vertex # rest, [], True)
        else
          let reweight = nwo / rv_woPdf curr_vertex;
              sc1 = (if reweight < 1 then rv_sc curr_vertex * reweight else rv_sc curr_vertex);
              sc2 = sc1 * env_augmentedMultiplier env sd curr_vertex;
              v1 = curr_vertex\<lparr>rv_sc := sc2, rv_woPdf := nwo\<rparr>;
              bsdfWeight = spectrum_div (rv_bsdfVal v1) nwo;
              throughput1 = spectrum_mul throughput (spectrum_scale bsdfWeight sc2);
              vx = make_vertex v1 throughput1 nwo dTreePdf;
              throughput2 = roulette (env_rrDepth env) j (rv_isDelta v1) throughput1
          in (case reweightAugment_vertices env sd (j + 1) throughput2 rest of
                (rest', vertices, terminated) \<Rightarrow> (v1 # rest', vx # vertices, terminated)))"

definition reweightAugment_path :: "'sd ReplayEnv \<Rightarrow> 'sd replay_state \<Rightarrow> nat \<Rightarrow> 'sd replay_state" where
  "reweightAugment_path env s i =
     (case s of (paths, sd, sampler) \<Rightarrow>
        let curr_path = paths ! i in
        if \<not> rp_active curr_path then s
        else
          (case reweightAugment_vertices env sd 0 (1, 1, 1) (rp_path curr_path) of
             (path', vertices, terminated) \<Rightarrow>
               if terminated then (paths[i := deactivate curr_path], sd, sampler)
               else
                 let curr_path' = curr_path\<lparr>rp_path := path'\<rparr>
                 in (case env_commit env sd curr_path' vertices sampler of
                       (sd', sampler') \<Rightarrow> (paths[i := curr_path'], sd', sampler'))))"

text \<open>The loop of \<^verbatim>\<open>reweightAugmentHybrid\<close> runs \<open>i\<close> from 0 to \<^verbatim>\<open>m_samplePaths->size()\<close>.\<close>

definition reweightAugmentHybrid :: "'sd ReplayEnv \<Rightarrow> 'sd replay_state \<Rightarrow> 'sd replay_state" where
  "reweightAugmentHybrid env s = foldl (reweightAugment_path env) s [0 ..< length (fst s)]"

subsection \<open>\<^verbatim>\<open>rejectAugmentHybrid\<close>\<close>

fun rejectAugment_vertices ::
  "'sd ReplayEnv \<Rightarrow> 'sd \<Rightarrow> nat \<Rightarrow> Spectrum \<Rightarrow> Sampler \<Rightarrow> RVertex list \<Rightarrow>
   RVertex list \<times> Vertex list \<times> bool \<times> Sampler" where
  "rejectAugment_vertices env sd j throughput sampler [] = ([], [], False, sampler)"
| "rejectAugment_vertices env sd j throughput sampler (curr_vert # rest) =
     (case env_computePdf env sd curr_vert of (newWoPdf, dTreePdf) \<Rightarrow>
        let acceptProb = newWoPdf / rv_woPdf curr_vert;
            v1 = curr_vert\<lparr>rv_woPdf := newWoPdf,
                            rv_sc := rv_sc curr_vert * env_augmentedMultiplier env sd curr_vert\<rparr>
        in (case next1D sampler of (u, sampler1) \<Rightarrow>
              if u > acceptProb then (v1 # rest, [], True, sampler1)
              else
                let bsdfWeight = spectrum_div (rv_bsdfVal v1) newWoPdf;
                    throughput1 = spectrum_mul throughput (spectrum_scale bsdfWeight (rv_sc v1));
                    vx = make_vertex v1 throughput1 newWoPdf dTreePdf;
                    throughput2 = roulette (env_rrDepth env) j (rv_isDelta v1) throughput1
                in (case rejectAugment_vertices env sd (j + 1) throughput2 sampler1 rest of
                      (rest', vertices, rejected, sampler2) \<Rightarrow>
                        (v1 # rest', vx # vertices, rejected, sampler2))))"

definition rejectAugment_path :: "'sd ReplayEnv \<Rightarrow> 'sd replay_state \<Rightarrow> nat \<Rightarrow> 'sd replay_state" where
  "rejectAugment_path env s i =
     (case s of (paths, sd, sampler) \<Rightarrow>
        let curr_path = paths ! i in
        if \<not> rp_active curr_path then s
        else
          (case rejectAugment_vertices env sd 0 (1, 1, 1) sampler (rp_path curr_path) of
             (path', vertices, rejected, sampler1) \<Rightarrow>
               if \<not> rejected then
                 let curr_path' = curr_path\<lparr>rp_path := path'\<rparr>
                 in (case env_commit env sd curr_path' vertices sampler1 of
                       (sd', sampler') \<Rightarrow> (paths[i := curr_path'], sd', sampler'))
               else (paths[i := deactivate curr_path], sd, sampler1)))"

text \<open>
  The loop of \<^verbatim>\<open>rejectAugmentHybrid\<close> runs \<open>i\<close> from 0 to \<^verbatim>\<open>m_augmentedStartPos\<close>; a
  start position beyond the buffer would index outside it, which is \<open>None\<close>.
\<close>

definition rejectAugmentHybrid ::
  "'sd ReplayEnv \<Rightarrow> nat \<Rightarrow> 'sd replay_state \<Rightarrow> 'sd replay_state option" where
  "rejectAugmentHybrid env m_augmentedStartPos s =
     (if m_augmentedStartPos \<le> length (fst s)
      then Some (foldl (rejectAugment_path env) s [0 ..< m_augmentedStartPos])
      else None)"

text \<open>
  An example pass: two active retained paths of one vertex each, the second collected
  after the augmented batch began (\<^verbatim>\<open>m_augmentedStartPos = 1\<close>); an SD-tree under which
  every vertex has the new \<^verbatim>\<open>woPdf\<close> one half and the multiplier one.
\<close>

definition exampleVertex :: RVertex where
  "exampleVertex =
     \<lparr>rv_o = (0, 0, 0), rv_d = (0, 0, 1), rv_time = 0, rv_bsdfVal = (1, 1, 1),
      rv_bsdfPdf = 1, rv_woPdf = 1, rv_isDelta = False, rv_sc = 1\<rparr>"

definition examplePath :: RPath where
  "examplePath =
     \<lparr>rp_path = [exampleVertex], rp_radiance_records = [], rp_nee_records = [],
      rp_sample_pos = (0, 0), rp_active = True, rp_iter = 0\<rparr>"

definition exampleEnv :: "unit ReplayEnv" where
  "exampleEnv =
     \<lparr>env_computePdf = (\<lambda>sd v. (1 / 2, 1 / 2)), env_augmentedMultiplier = (\<lambda>sd v. 1),
      env_commit = (\<lambda>sd p vs sampler. (sd, sampler)), env_rrDepth = 5\<rparr>"

subsection \<open>Example inputs and auxiliary notions for the wrapper and the spatial tree\<close>

definition wrapperSmallB :: DTreeWrapper where
  "wrapperSmallB = DTreeWrapper_new\<lparr>weighted_previous_samples := 1000000, B := 1 / 200000\<rparr>"

definition wrapperHalfB :: DTreeWrapper where
  "wrapperHalfB = DTreeWrapper_new\<lparr>weighted_previous_samples := 5, B := 1 / 2\<rparr>"

definition samplerQuarter :: Sampler where
  "samplerQuarter = \<lparr>s_draws = (\<lambda>n. 1 / 4), s_pos = 0\<rparr>"

definition halved :: "DTreeWrapper \<Rightarrow> DTreeWrapper" where
  "halved w = setStatisticalWeightBuilding w (statisticalWeightBuilding w / 2)"

definition child_of :: "STreeNode \<Rightarrow> STreeNode" where
  "child_of cur = STreeNode_new\<lparr>st_axis := (st_axis cur + 1) mod 3, st_dTree := halved (st_dTree cur),
     st_level := st_level cur + 1\<rparr>"

definition parent_of :: "STreeNode \<Rightarrow> nat \<Rightarrow> STreeNode" where
  "parent_of cur L = cur\<lparr>st_children := [L, L + 1], st_isLeaf := False, st_dTree := DTreeWrapper_new\<rparr>"

definition stree_inv :: "STreeNode list \<Rightarrow> bool" where
  "stree_inv nodes \<longleftrightarrow>
     (\<forall>k < length nodes.
        length (st_children (nodes ! k)) = 2 \<and>
        (\<not> st_isLeaf (nodes ! k) \<longrightarrow>
           axis_cycles nodes k \<and> st_dTree (nodes ! k) = DTreeWrapper_new))"

subsection \<open>Auxiliary notions for the augmented distribution\<close>

text \<open>
  \<^verbatim>\<open>getMajorizingFactor\<close> and \<^verbatim>\<open>buildAugmented\<close> walk two trees together and go down
  where both have a child; the other slots are the joint leaves, where the two pdfs
  are compared and where the augmented tree gets a leaf. \<open>joint_leaf\<close> relates a pair
  of nodes, visited with a factor each, to the two pdfs at a joint leaf below it;
  \<open>joint_pdfs\<close> lists these pairs of pdfs and \<open>joint_size\<close> counts the pairs of nodes
  visited, the argument \<open>d\<close> bounding the depth. \<open>totals_ok\<close>: the four sums of every
  node add up to at least \<^verbatim>\<open>EPSILON\<close>, so that no pdf is cut to 0 by the test on the
  denominator.

  The remaining definitions state the invariants of the three loops. An augmented node
  \<open>k\<close> is annotated with the mean \<open>w k\<close> of the pdf below it and with a rank \<open>rk k\<close> that
  decreases along the child indices; \<open>aug_good\<close> says that node \<open>k\<close> is finished,
  \<open>ba_pending\<close> that it waits on the stack, \<open>ba_mid\<close> that its slots below \<open>j\<close> are
  done. \<open>leaf_same\<close> relates a node vector to the one \<^verbatim>\<open>build\<close> makes of it, and
  \<open>ci_pot\<close> is the value \<^verbatim>\<open>computeIntegral\<close> is going to return from a state.
\<close>

definition joint_internal ::
  "real QuadTreeNode list \<Rightarrow> real QuadTreeNode list \<Rightarrow> nat \<Rightarrow> nat \<Rightarrow> nat \<Rightarrow> bool" where
  "joint_internal this other k1 k2 i \<longleftrightarrow>
     \<not> (isLeaf (this ! k1) i \<or> isLeaf (other ! k2) i)"





definition mf_joined :: "NodePairM \<Rightarrow> nat \<Rightarrow> nat \<Rightarrow> bool" where
  "mf_joined np k1 k2 \<longleftrightarrow> nodeIndex np = (k1, - 1) \<and> otherNodeIndex np = (k2, - 1)"

definition mf_joint_entry ::
  "real QuadTreeNode list \<Rightarrow> real QuadTreeNode list \<Rightarrow> NodePairM \<Rightarrow> nat \<Rightarrow> nat \<Rightarrow> nat \<Rightarrow> NodePairM" where
  "mf_joint_entry this other np k1 k2 i =
     \<lparr>nodeIndex = (child (this ! k1) i, - 1), otherNodeIndex = (child (other ! k2) i, - 1),
      nodeFactor = node_pdf this k1 (nodeFactor np) i,
      otherNodeFactor = node_pdf other k2 (otherNodeFactor np) i,
      nodeLevel = nodeLevel np + 1, otherNodeLevel = otherNodeLevel np + 1\<rparr>"
























section \<open>The traversals in rounded arithmetic\<close>

text \<open>
  The definitions so far evaluate the arithmetic of the source over the reals. The
  source computes in \<^verbatim>\<open>float\<close>: every arithmetic operation returns the rounded
  value of its exact result. The definitions of this section repeat the traversals
  with a rounding function \<open>rnd\<close> applied to the result of every floating-point
  operation, in the order in which the source evaluates them
  (\<^verbatim>\<open>f * 4.f * s / d\<close> is \<open>((f * 4) * s) / d\<close>, and the four sums of a node are
  added from left to right). Comparisons, \<^verbatim>\<open>std::max\<close>, \<^verbatim>\<open>std::abs\<close> and the
  literals 0, 1 and 4 are exact. The constant \<^verbatim>\<open>1e-5f\<close> is the rounded value of
  \<open>1 / 100000\<close>. For \<open>rnd = (\<lambda>x. x)\<close> these are the definitions above.
\<close>

definition EPSILON_fl :: "(real \<Rightarrow> real) \<Rightarrow> real" where
  "EPSILON_fl rnd = rnd EPSILON"

definition sum_total_fl :: "(real \<Rightarrow> real) \<Rightarrow> real QuadTreeNode \<Rightarrow> real" where
  "sum_total_fl rnd n = rnd (rnd (rnd (sum_at n 0 + sum_at n 1) + sum_at n 2) + sum_at n 3)"

definition pair_denom_fl :: "(real \<Rightarrow> real) \<Rightarrow> real QuadTreeNode \<Rightarrow> int \<Rightarrow> real" where
  "pair_denom_fl rnd node second =
     (if second < 0 then sum_total_fl rnd node else rnd (sum_at node (nat second) * 4))"

definition slot_pdf_fl ::
  "(real \<Rightarrow> real) \<Rightarrow> real \<Rightarrow> real QuadTreeNode \<Rightarrow> real \<Rightarrow> nat \<Rightarrow> real" where
  "slot_pdf_fl rnd factor node denom ci =
     (if denom < EPSILON_fl rnd then 0
      else rnd (rnd (rnd (factor * 4) * sum_at node ci) / denom))"

subsection \<open>\<^verbatim>\<open>DTree::getMajorizingFactor\<close>, rounded\<close>

definition mf_slot_fl ::
  "(real \<Rightarrow> real) \<Rightarrow> real QuadTreeNode list \<Rightarrow> real QuadTreeNode list \<Rightarrow> NodePairM \<Rightarrow>
   mf_state \<Rightarrow> nat \<Rightarrow> mf_state" where
  "mf_slot_fl rnd this other np s i =
     (case s of (pdfPair, largestScalingFactor, pairStack) \<Rightarrow>
      let node = this ! fst (nodeIndex np);
          otherNode = other ! fst (otherNodeIndex np);
          denom = pair_denom_fl rnd node (snd (nodeIndex np));
          otherDenom = pair_denom_fl rnd otherNode (snd (otherNodeIndex np));
          childIdx = pair_slot (snd (nodeIndex np)) i;
          otherChildIdx = pair_slot (snd (otherNodeIndex np)) i;
          pdf = slot_pdf_fl rnd (nodeFactor np) node denom childIdx;
          otherPdf = slot_pdf_fl rnd (otherNodeFactor np) otherNode otherDenom otherChildIdx
      in if isLeaf node childIdx \<or> isLeaf otherNode otherChildIdx then
           let pdf' = max pdf (EPSILON_fl rnd);
               otherPdf' = max otherPdf (EPSILON_fl rnd);
               scalingFactor = rnd (otherPdf' / pdf')
           in if scalingFactor > largestScalingFactor
              then ((pdf', otherPdf'), scalingFactor, pairStack)
              else (pdfPair, largestScalingFactor, pairStack)
         else
           (pdfPair, largestScalingFactor,
            \<lparr>nodeIndex = next_index this (nodeIndex np) childIdx,
             otherNodeIndex = next_index other (otherNodeIndex np) otherChildIdx,
             nodeFactor = pdf, otherNodeFactor = otherPdf,
             nodeLevel = nodeLevel np + 1, otherNodeLevel = otherNodeLevel np + 1\<rparr> # pairStack))"

fun mf_loop_fl ::
  "(real \<Rightarrow> real) \<Rightarrow> nat \<Rightarrow> real QuadTreeNode list \<Rightarrow> real QuadTreeNode list \<Rightarrow> mf_state \<Rightarrow>
   (real \<times> real) option" where
  "mf_loop_fl rnd fuel this other (pdfPair, largestScalingFactor, []) = Some pdfPair"
| "mf_loop_fl rnd 0 this other (pdfPair, largestScalingFactor, np # pairStack) = None"
| "mf_loop_fl rnd (Suc fuel) this other (pdfPair, largestScalingFactor, np # pairStack) =
     (if fst (nodeIndex np) < length this \<and> fst (otherNodeIndex np) < length other
      then mf_loop_fl rnd fuel this other
             (foldl (mf_slot_fl rnd this other np) (pdfPair, largestScalingFactor, pairStack)
                [0, 1, 2, 3])
      else None)"

definition getMajorizingFactor_fl ::
  "(real \<Rightarrow> real) \<Rightarrow> nat \<Rightarrow> real DTree \<Rightarrow> real DTree \<Rightarrow> (real \<times> real) option" where
  "getMajorizingFactor_fl rnd fuel this other =
     mf_loop_fl rnd fuel (m_nodes this) (m_nodes other)
       ((1, 1), 0,
        [\<lparr>nodeIndex = (0, - 1), otherNodeIndex = (0, - 1), nodeFactor = 1, otherNodeFactor = 1,
          nodeLevel = 0, otherNodeLevel = 0\<rparr>])"

definition majorizingA_fl :: "(real \<Rightarrow> real) \<Rightarrow> real \<times> real \<Rightarrow> real" where
  "majorizingA_fl rnd p =
     (if fst p < EPSILON_fl rnd \<and> snd p < EPSILON_fl rnd then 1 else rnd (snd p / fst p))"

subsection \<open>\<^verbatim>\<open>DTree::validateMajorizingFactor\<close>, rounded\<close>

fun vmf_slots_fl ::
  "(real \<Rightarrow> real) \<Rightarrow> real QuadTreeNode list \<Rightarrow> real QuadTreeNode list \<Rightarrow> real \<Rightarrow> NodePairV \<Rightarrow>
   NodePairV list \<Rightarrow> nat list \<Rightarrow> NodePairV list option" where
  "vmf_slots_fl rnd this other factor np pairStack [] = Some pairStack"
| "vmf_slots_fl rnd this other factor np pairStack (i # is) =
     (let node = this ! fst (v_nodeIndex np);
          otherNode = other ! fst (v_otherNodeIndex np);
          denom = pair_denom_fl rnd node (snd (v_nodeIndex np));
          otherDenom = pair_denom_fl rnd otherNode (snd (v_otherNodeIndex np));
          childIdx = pair_slot (snd (v_nodeIndex np)) i;
          otherChildIdx = pair_slot (snd (v_otherNodeIndex np)) i;
          pdf = slot_pdf_fl rnd (v_nodeFactor np) node denom childIdx;
          otherPdf = slot_pdf_fl rnd (v_otherNodeFactor np) otherNode otherDenom otherChildIdx
      in if isLeaf node childIdx \<and> isLeaf otherNode otherChildIdx then
           let mpdf = rnd (factor * pdf)
           in if rnd (mpdf - otherPdf) < - EPSILON_fl rnd then None
              else vmf_slots_fl rnd this other factor np pairStack is
         else
           vmf_slots_fl rnd this other factor np
             (\<lparr>v_nodeIndex = next_index this (v_nodeIndex np) childIdx,
               v_otherNodeIndex = next_index other (v_otherNodeIndex np) otherChildIdx,
               v_nodeFactor = pdf, v_otherNodeFactor = otherPdf\<rparr> # pairStack) is)"

fun vmf_loop_fl ::
  "(real \<Rightarrow> real) \<Rightarrow> nat \<Rightarrow> real QuadTreeNode list \<Rightarrow> real QuadTreeNode list \<Rightarrow> real \<Rightarrow>
   NodePairV list \<Rightarrow> bool option" where
  "vmf_loop_fl rnd fuel this other factor [] = Some True"
| "vmf_loop_fl rnd 0 this other factor (np # pairStack) = None"
| "vmf_loop_fl rnd (Suc fuel) this other factor (np # pairStack) =
     (if fst (v_nodeIndex np) < length this \<and> fst (v_otherNodeIndex np) < length other
      then (case vmf_slots_fl rnd this other factor np pairStack [0, 1, 2, 3] of
              None \<Rightarrow> Some False
            | Some pairStack' \<Rightarrow> vmf_loop_fl rnd fuel this other factor pairStack')
      else None)"

definition validateMajorizingFactor_fl ::
  "(real \<Rightarrow> real) \<Rightarrow> nat \<Rightarrow> real DTree \<Rightarrow> real DTree \<Rightarrow> real \<Rightarrow> bool option" where
  "validateMajorizingFactor_fl rnd fuel this other factor =
     vmf_loop_fl rnd fuel (m_nodes this) (m_nodes other) factor
       [\<lparr>v_nodeIndex = (0, - 1), v_otherNodeIndex = (0, - 1),
         v_nodeFactor = 1, v_otherNodeFactor = 1\<rparr>]"

subsection \<open>The rounding function\<close>

text \<open>
  The standard model of floating-point arithmetic: rounding is monotone, and the
  rounded value of \<open>x\<close> differs from \<open>x\<close> by at most \<open>u * \<bar>x\<bar>\<close>, where \<open>u\<close> is the unit
  roundoff (\<open>2 ^ - 24\<close> for single precision with rounding to nearest, as long as
  no operation overflows or underflows).
\<close>

definition rounds_monotone :: "(real \<Rightarrow> real) \<Rightarrow> bool" where
  "rounds_monotone rnd \<longleftrightarrow> (\<forall>x y. x \<le> y \<longrightarrow> rnd x \<le> rnd y)"

definition rounds_within :: "(real \<Rightarrow> real) \<Rightarrow> real \<Rightarrow> bool" where
  "rounds_within rnd u \<longleftrightarrow> 0 \<le> u \<and> (\<forall>x. \<bar>rnd x - x\<bar> \<le> u * \<bar>x\<bar>)"

subsection \<open>The joint traversal, rounded\<close>

text \<open>
  The pdf of slot \<open>i\<close> of node \<open>k\<close> as the traversals compute it, the leaves of the
  joint traversal of two trees (the slots where either tree has a leaf) with the pair
  of pdfs computed there, and the list of these pairs.
\<close>

definition node_pdf_fl :: "(real \<Rightarrow> real) \<Rightarrow> real QuadTreeNode list \<Rightarrow> nat \<Rightarrow> real \<Rightarrow> nat \<Rightarrow> real" where
  "node_pdf_fl rnd nodes k factor i =
     slot_pdf_fl rnd factor (nodes ! k) (sum_total_fl rnd (nodes ! k)) i"

inductive joint_leaf_fl ::
  "(real \<Rightarrow> real) \<Rightarrow> real QuadTreeNode list \<Rightarrow> real QuadTreeNode list \<Rightarrow> nat \<Rightarrow> nat \<Rightarrow>
   real \<Rightarrow> real \<Rightarrow> real \<Rightarrow> real \<Rightarrow> bool"
  for rnd this other where
  jlf_leaf: "i < 4 \<Longrightarrow> \<not> joint_internal this other k1 k2 i \<Longrightarrow>
     joint_leaf_fl rnd this other k1 k2 f1 f2
       (node_pdf_fl rnd this k1 f1 i) (node_pdf_fl rnd other k2 f2 i)"
| jlf_child: "i < 4 \<Longrightarrow> joint_internal this other k1 k2 i \<Longrightarrow>
     joint_leaf_fl rnd this other (child (this ! k1) i) (child (other ! k2) i)
       (node_pdf_fl rnd this k1 f1 i) (node_pdf_fl rnd other k2 f2 i) p q \<Longrightarrow>
     joint_leaf_fl rnd this other k1 k2 f1 f2 p q"

fun joint_pdfs_fl ::
  "(real \<Rightarrow> real) \<Rightarrow> nat \<Rightarrow> real QuadTreeNode list \<Rightarrow> real QuadTreeNode list \<Rightarrow> nat \<Rightarrow> nat \<Rightarrow>
   real \<Rightarrow> real \<Rightarrow> (real \<times> real) list" where
  "joint_pdfs_fl rnd 0 this other k1 k2 f1 f2 = []"
| "joint_pdfs_fl rnd (Suc d) this other k1 k2 f1 f2 =
     concat (map (\<lambda>i. let p = node_pdf_fl rnd this k1 f1 i; q = node_pdf_fl rnd other k2 f2 i
                       in if joint_internal this other k1 k2 i
                          then joint_pdfs_fl rnd d this other (child (this ! k1) i)
                                 (child (other ! k2) i) p q
                          else [(p, q)])
                 [0, 1, 2, 3])"

definition floored_ratio_fl :: "(real \<Rightarrow> real) \<Rightarrow> real \<Rightarrow> real \<Rightarrow> real" where
  "floored_ratio_fl rnd p q = rnd (max q (EPSILON_fl rnd) / max p (EPSILON_fl rnd))"

definition mf_inv_fl :: "(real \<Rightarrow> real) \<Rightarrow> mf_state \<Rightarrow> bool" where
  "mf_inv_fl rnd s \<longleftrightarrow> EPSILON_fl rnd \<le> fst (fst s) \<and> EPSILON_fl rnd \<le> snd (fst s) \<and>
     fst (snd s) \<le> rnd (snd (fst s) / fst (fst s))"

definition mf_joint_entry_fl ::
  "(real \<Rightarrow> real) \<Rightarrow> real QuadTreeNode list \<Rightarrow> real QuadTreeNode list \<Rightarrow> NodePairM \<Rightarrow> nat \<Rightarrow> nat \<Rightarrow>
   nat \<Rightarrow> NodePairM" where
  "mf_joint_entry_fl rnd this other np k1 k2 i =
     \<lparr>nodeIndex = (child (this ! k1) i, - 1), otherNodeIndex = (child (other ! k2) i, - 1),
      nodeFactor = node_pdf_fl rnd this k1 (nodeFactor np) i,
      otherNodeFactor = node_pdf_fl rnd other k2 (otherNodeFactor np) i,
      nodeLevel = nodeLevel np + 1, otherNodeLevel = otherNodeLevel np + 1\<rparr>"

definition mf_joint_step_ok_fl ::
  "(real \<Rightarrow> real) \<Rightarrow> real QuadTreeNode list \<Rightarrow> real QuadTreeNode list \<Rightarrow> NodePairM \<Rightarrow> nat \<Rightarrow> nat \<Rightarrow>
   nat list \<Rightarrow> mf_state \<Rightarrow> mf_state \<Rightarrow> bool" where
  "mf_joint_step_ok_fl rnd this other np k1 k2 is s s' \<longleftrightarrow>
     mf_inv_fl rnd s' \<and> fst (snd s) \<le> fst (snd s') \<and>
     set (snd (snd s)) \<subseteq> set (snd (snd s')) \<and>
     set (snd (snd s')) \<subseteq> set (snd (snd s)) \<union>
        {mf_joint_entry_fl rnd this other np k1 k2 i | i. i \<in> set is \<and> joint_internal this other k1 k2 i} \<and>
     (\<forall>i \<in> set is.
        if \<not> joint_internal this other k1 k2 i
        then floored_ratio_fl rnd (node_pdf_fl rnd this k1 (nodeFactor np) i)
               (node_pdf_fl rnd other k2 (otherNodeFactor np) i) \<le> fst (snd s')
        else mf_joint_entry_fl rnd this other np k1 k2 i \<in> set (snd (snd s')))"

definition mf_joint_covered_fl ::
  "(real \<Rightarrow> real) \<Rightarrow> real QuadTreeNode list \<Rightarrow> real QuadTreeNode list \<Rightarrow> real \<Rightarrow> NodePairM \<Rightarrow> bool" where
  "mf_joint_covered_fl rnd this other r np \<longleftrightarrow>
     (\<forall>k1 k2 p q. mf_joined np k1 k2 \<longrightarrow>
        joint_leaf_fl rnd this other k1 k2 (nodeFactor np) (otherNodeFactor np) p q \<longrightarrow>
        floored_ratio_fl rnd p q \<le> r)"

definition vmf_child_entry_fl ::
  "(real \<Rightarrow> real) \<Rightarrow> real QuadTreeNode list \<Rightarrow> real QuadTreeNode list \<Rightarrow> NodePairV \<Rightarrow> nat \<Rightarrow> nat \<Rightarrow>
   NodePairV" where
  "vmf_child_entry_fl rnd this other np k i =
     \<lparr>v_nodeIndex = (child (this ! k) i, - 1), v_otherNodeIndex = (child (this ! k) i, - 1),
      v_nodeFactor = node_pdf_fl rnd this k (v_nodeFactor np) i,
      v_otherNodeFactor = node_pdf_fl rnd other k (v_otherNodeFactor np) i\<rparr>"

definition vmf_passes_fl ::
  "(real \<Rightarrow> real) \<Rightarrow> real QuadTreeNode list \<Rightarrow> real QuadTreeNode list \<Rightarrow> real \<Rightarrow> NodePairV \<Rightarrow> bool" where
  "vmf_passes_fl rnd this other A np \<longleftrightarrow>
     (\<forall>k p q. vmf_aligned np k \<longrightarrow>
        joint_leaf_fl rnd this other k k (v_nodeFactor np) (v_otherNodeFactor np) p q \<longrightarrow>
        \<not> (rnd (rnd (A * p) - q) < - EPSILON_fl rnd))"

definition pair_pos_fl :: "(real \<Rightarrow> real) \<Rightarrow> mf_state \<Rightarrow> bool" where
  "pair_pos_fl rnd s \<longleftrightarrow> EPSILON_fl rnd \<le> fst (fst s) \<and> EPSILON_fl rnd \<le> snd (fst s)"

text \<open>
  The side condition on the leaves of the joint traversal: the computed pdf of the
  current tree is at least \<^verbatim>\<open>EPSILON\<close>, and the computed pdf \<open>q\<close> of the previous tree
  is small enough for the rounding error of \<open>A * p - q\<close> to stay below \<^verbatim>\<open>EPSILON\<close>
  (for \<open>u = 2 ^ - 24\<close> this is \<open>q \<le> 83.88\<close>).
\<close>

definition leaves_bounded ::
  "(real \<Rightarrow> real) \<Rightarrow> real \<Rightarrow> real QuadTreeNode list \<Rightarrow> real QuadTreeNode list \<Rightarrow> bool" where
  "leaves_bounded rnd u this other \<longleftrightarrow>
     (\<forall>pq \<in> set (joint_pdfs_fl rnd (length this) this other 0 0 1 1).
        EPSILON_fl rnd \<le> fst pq \<and> 2 * u * (1 + u) * snd pq \<le> EPSILON_fl rnd)"

text \<open>
  A rounding function for the examples: every operation loses the relative amount
  \<open>2 ^ - 24\<close>. It is monotone and within the unit roundoff \<open>2 ^ - 24\<close>.
\<close>

definition chop24 :: "real \<Rightarrow> real" where
  "chop24 x = x * (1 - 1 / 2 ^ 24)"

subsection \<open>\<^verbatim>\<open>DTree::buildAugmented\<close>, \<^verbatim>\<open>build\<close> and \<^verbatim>\<open>computeIntegral\<close>, rounded\<close>

definition computeAugmentedPdf_fl :: "(real \<Rightarrow> real) \<Rightarrow> real \<Rightarrow> real \<Rightarrow> real \<Rightarrow> real" where
  "computeAugmentedPdf_fl rnd oldPdf newPdf A =
     max 0 (rnd (rnd (rnd (A * newPdf) - oldPdf) / rnd (A - 1)))"

definition ba_slot_fl ::
  "(real \<Rightarrow> real) \<Rightarrow> real QuadTreeNode list \<Rightarrow> real QuadTreeNode list \<Rightarrow> real \<Rightarrow> NodePairA \<Rightarrow>
   ba_state \<Rightarrow> nat \<Rightarrow> ba_state" where
  "ba_slot_fl rnd oldDist newDist A np s i =
     (case s of (nodes, pairStack) \<Rightarrow>
      let oldNode = oldDist ! fst (oldNodeIndex np);
          newNode = newDist ! fst (newNodeIndex np);
          oldDenom = pair_denom_fl rnd oldNode (snd (oldNodeIndex np));
          newDenom = pair_denom_fl rnd newNode (snd (newNodeIndex np));
          oldChildIdx = pair_slot (snd (oldNodeIndex np)) i;
          newChildIdx = pair_slot (snd (newNodeIndex np)) i;
          oldPdf = slot_pdf_fl rnd (oldNodeFactor np) oldNode oldDenom oldChildIdx;
          newPdf = slot_pdf_fl rnd (newNodeFactor np) newNode newDenom newChildIdx;
          pdf = computeAugmentedPdf_fl rnd oldPdf newPdf A;
          s' = (if \<not> (isLeaf newNode newChildIdx \<or> isLeaf oldNode oldChildIdx) then
                  let nodes1 = nodes[augNodeIdx np := setChild (nodes ! augNodeIdx np) i (length nodes mod 65536)];
                      nodes2 = nodes1 @ [setSumAll QuadTreeNode_new (rnd (pdf / 4))]
                  in (nodes2,
                      \<lparr>newNodeIndex = next_index newDist (newNodeIndex np) newChildIdx,
                       oldNodeIndex = next_index oldDist (oldNodeIndex np) oldChildIdx,
                       newNodeFactor = newPdf, oldNodeFactor = oldPdf,
                       augNodeIdx = length nodes2 - 1\<rparr> # pairStack)
                else (nodes, pairStack))
      in (case s' of (nodes', pairStack') \<Rightarrow>
            (nodes'[augNodeIdx np := setSum (nodes' ! augNodeIdx np) i pdf], pairStack')))"

fun ba_loop_fl ::
  "(real \<Rightarrow> real) \<Rightarrow> nat \<Rightarrow> real QuadTreeNode list \<Rightarrow> real QuadTreeNode list \<Rightarrow> real \<Rightarrow> ba_state \<Rightarrow>
   real QuadTreeNode list option" where
  "ba_loop_fl rnd fuel oldDist newDist A (nodes, []) = Some nodes"
| "ba_loop_fl rnd 0 oldDist newDist A (nodes, np # pairStack) = None"
| "ba_loop_fl rnd (Suc fuel) oldDist newDist A (nodes, np # pairStack) =
     (if fst (oldNodeIndex np) < length oldDist \<and> fst (newNodeIndex np) < length newDist \<and>
         augNodeIdx np < length nodes
      then ba_loop_fl rnd fuel oldDist newDist A
             (foldl (ba_slot_fl rnd oldDist newDist A np) (nodes, pairStack) [0, 1, 2, 3])
      else None)"

definition sum4_fl :: "(real \<Rightarrow> real) \<Rightarrow> real QuadTreeNode \<Rightarrow> real" where
  "sum4_fl rnd c = foldl (\<lambda>s j. rnd (s + sum_at c j)) 0 [0, 1, 2, 3]"

definition build_slot_fl ::
  "(real \<Rightarrow> real) \<Rightarrow> (real QuadTreeNode list \<Rightarrow> nat \<Rightarrow> real QuadTreeNode list option) \<Rightarrow> nat \<Rightarrow>
   real QuadTreeNode list option \<Rightarrow> nat \<Rightarrow> real QuadTreeNode list option" where
  "build_slot_fl rnd rec idx acc i =
     (case acc of
        None \<Rightarrow> None
      | Some nodes \<Rightarrow>
          if isLeaf (nodes ! idx) i then Some nodes
          else
            let c = child (nodes ! idx) i in
            if c < length nodes then
              (case rec nodes c of
                 None \<Rightarrow> None
               | Some nodes' \<Rightarrow>
                   Some (nodes'[idx := setSum (nodes' ! idx) i (sum4_fl rnd (nodes' ! c))]))
            else None)"

fun QuadTreeNode_build_fl ::
  "(real \<Rightarrow> real) \<Rightarrow> nat \<Rightarrow> real QuadTreeNode list \<Rightarrow> nat \<Rightarrow> real QuadTreeNode list option" where
  "QuadTreeNode_build_fl rnd 0 nodes idx = None"
| "QuadTreeNode_build_fl rnd (Suc fuel) nodes idx =
     (if idx < length nodes
      then foldl (build_slot_fl rnd (QuadTreeNode_build_fl rnd fuel) idx) (Some nodes) [0, 1, 2, 3]
      else None)"

definition DTree_build_fl :: "(real \<Rightarrow> real) \<Rightarrow> nat \<Rightarrow> real DTree \<Rightarrow> real DTree option" where
  "DTree_build_fl rnd fuel t =
     (case QuadTreeNode_build_fl rnd fuel (m_nodes t) 0 of
        None \<Rightarrow> None
      | Some nodes \<Rightarrow> Some (t\<lparr>m_nodes := nodes, atomic_sum := sum4_fl rnd (nodes ! 0)\<rparr>))"

definition buildAugmented_fl ::
  "(real \<Rightarrow> real) \<Rightarrow> nat \<Rightarrow> real DTree \<Rightarrow> real DTree \<Rightarrow> real DTree \<Rightarrow> (real DTree \<times> real) option" where
  "buildAugmented_fl rnd fuel this oldDist newDist =
     (let this1 = this\<lparr>atomic_sum := 0, atomic_statisticalWeight := 0, m_maxDepth := 0\<rparr>
      in (case getMajorizingFactor_fl rnd fuel newDist oldDist of
            None \<Rightarrow> None
          | Some majorizing_pair \<Rightarrow>
              (let A = majorizingA_fl rnd majorizing_pair
               in if \<bar>rnd (A - 1)\<bar> < EPSILON_fl rnd then Some (this1, 0)
                  else
                    (let root = setSumAll QuadTreeNode_new (computeAugmentedPdf_fl rnd 1 1 A)
                     in (case ba_loop_fl rnd fuel (m_nodes oldDist) (m_nodes newDist) A
                               ([root],
                                [\<lparr>newNodeIndex = (0, - 1), oldNodeIndex = (0, - 1),
                                  newNodeFactor = 1, oldNodeFactor = 1, augNodeIdx = 0\<rparr>]) of
                           None \<Rightarrow> None
                         | Some nodes \<Rightarrow>
                             (case DTree_build_fl rnd fuel (this1\<lparr>m_nodes := nodes\<rparr>) of
                                None \<Rightarrow> None
                              | Some this2 \<Rightarrow>
                                  Some (this2\<lparr>atomic_statisticalWeight :=
                                                 atomic_statisticalWeight newDist\<rparr>,
                                        rnd (A - 1))))))))"

definition ci_slot_fl ::
  "(real \<Rightarrow> real) \<Rightarrow> real QuadTreeNode \<Rightarrow> real \<Rightarrow> ci_state \<Rightarrow> nat \<Rightarrow> ci_state" where
  "ci_slot_fl rnd curr_node factor s i =
     (case s of (integral, nodeStack) \<Rightarrow>
        if isLeaf curr_node i then (rnd (integral + rnd (sum_at curr_node i * factor)), nodeStack)
        else (integral, (factor, child curr_node i) # nodeStack))"

fun ci_loop_fl ::
  "(real \<Rightarrow> real) \<Rightarrow> nat \<Rightarrow> real QuadTreeNode list \<Rightarrow> ci_state \<Rightarrow> real option" where
  "ci_loop_fl rnd fuel nodes (integral, []) = Some integral"
| "ci_loop_fl rnd 0 nodes (integral, sn # nodeStack) = None"
| "ci_loop_fl rnd (Suc fuel) nodes (integral, (stackFactor, stackIdx) # nodeStack) =
     (if stackIdx < length nodes
      then ci_loop_fl rnd fuel nodes
             (foldl (ci_slot_fl rnd (nodes ! stackIdx) (rnd (stackFactor / 4))) (integral, nodeStack)
                [0, 1, 2, 3])
      else None)"

definition computeIntegral_fl :: "(real \<Rightarrow> real) \<Rightarrow> nat \<Rightarrow> real DTree \<Rightarrow> real option" where
  "computeIntegral_fl rnd fuel t = ci_loop_fl rnd fuel (m_nodes t) (0, [(1, 0)])"



subsection \<open>Invariant of the rounded construction\<close>












section \<open>Basic facts\<close>

lemma EPSILON_pos: "0 < EPSILON"
  by (simp add: EPSILON_def)

lemma EPSILON_le_1: "EPSILON \<le> 1"
  by (simp add: EPSILON_def)

section \<open>Verification of \<^verbatim>\<open>build\<close>\<close>

lemma build_slot_None [simp]: "build_slot rec idx None i = None"
  by (simp add: build_slot_def)

lemma foldl_build_slot_None [simp]: "foldl (build_slot rec idx) None is = None"
  by (induction "is") simp_all

lemma build_slot_SomeE:
  assumes "build_slot rec idx (Some cur) i = Some nxt"
  obtains (leaf) "isLeaf (cur ! idx) i" "nxt = cur"
  | (inner) mid where "\<not> isLeaf (cur ! idx) i" "child (cur ! idx) i < length cur"
      "rec cur (child (cur ! idx) i) = Some mid"
      "nxt = mid[idx := setSum (mid ! idx) i (sum4 (mid ! child (cur ! idx) i))]"
  using assms
  by (auto simp: build_slot_def Let_def split: if_splits option.splits)

lemma foldl4:
  "foldl f a [0, 1, 2, 3::nat] = f (f (f (f a 0) 1) 2) 3"
  by simp

lemma build_SucE:
  assumes "QuadTreeNode_build (Suc f) nodes idx = Some res"
  obtains n1 n2 n3 where "idx < length nodes"
    "build_slot (QuadTreeNode_build f) idx (Some nodes) 0 = Some n1"
    "build_slot (QuadTreeNode_build f) idx (Some n1) 1 = Some n2"
    "build_slot (QuadTreeNode_build f) idx (Some n2) 2 = Some n3"
    "build_slot (QuadTreeNode_build f) idx (Some n3) 3 = Some res"
proof -
  let ?s = "build_slot (QuadTreeNode_build f) idx"
  from assms have len: "idx < length nodes" and
    r: "?s (?s (?s (?s (Some nodes) 0) 1) 2) 3 = Some res"
    by (auto split: if_splits)
  obtain n1 where n1: "?s (Some nodes) 0 = Some n1"
    using r by (cases "?s (Some nodes) 0") auto
  obtain n2 where n2: "?s (Some n1) 1 = Some n2"
    using r n1 by (cases "?s (Some n1) 1") auto
  obtain n3 where n3: "?s (Some n2) 2 = Some n3"
    using r n1 n2 by (cases "?s (Some n2) 2") auto
  from r n1 n2 n3 have "?s (Some n3) 3 = Some res" by simp
  with len n1 n2 n3 that show thesis by blast
qed

lemma same_shape_refl [simp]: "same_shape xs xs"
  by (simp add: same_shape_def)

lemma same_shape_trans: "same_shape xs ys \<Longrightarrow> same_shape ys zs \<Longrightarrow> same_shape xs zs"
  by (simp add: same_shape_def)

lemma same_shape_length: "same_shape xs ys \<Longrightarrow> length ys = length xs"
  unfolding same_shape_def by (metis length_map)

lemma same_shape_children:
  "same_shape xs ys \<Longrightarrow> k < length xs \<Longrightarrow> m_children (ys ! k) = m_children (xs ! k)"
  unfolding same_shape_def by (metis length_map nth_map)

lemma same_shape_child:
  "same_shape xs ys \<Longrightarrow> k < length xs \<Longrightarrow> child (ys ! k) i = child (xs ! k) i"
  by (simp add: child_def same_shape_children)

lemma same_shape_sum_len:
  "same_shape xs ys \<Longrightarrow> k < length xs \<Longrightarrow> length (m_sum (ys ! k)) = length (m_sum (xs ! k))"
  unfolding same_shape_def
  by (metis (mono_tags, lifting) length_map nth_map)

lemma same_shape_setSum:
  "idx < length xs \<Longrightarrow> same_shape xs (xs[idx := setSum (xs ! idx) i v])"
  by (simp add: same_shape_def setSum_def map_update list_update_same_conv)

lemma wf_nodes_alt:
  "wf_nodes nodes \<longleftrightarrow>
     nodes \<noteq> [] \<and>
     (\<forall>k < length nodes.
        length (m_sum (nodes ! k)) = 4 \<and> length (m_children (nodes ! k)) = 4 \<and>
        (\<forall>i < 4. child (nodes ! k) i = 0 \<or>
                 (k < child (nodes ! k) i \<and> child (nodes ! k) i < length nodes)))"
  by (simp add: wf_nodes_def Ball_def)

lemma wf_nodes_shape:
  assumes "wf_nodes xs" "same_shape xs ys"
  shows "wf_nodes ys"
proof -
  have len: "length ys = length xs" using assms(2) by (rule same_shape_length)
  have "ys \<noteq> []" using assms(1) len by (auto simp: wf_nodes_alt)
  moreover have "length (m_sum (ys ! k)) = 4 \<and> length (m_children (ys ! k)) = 4 \<and>
        (\<forall>i < 4. child (ys ! k) i = 0 \<or> (k < child (ys ! k) i \<and> child (ys ! k) i < length ys))"
    if "k < length ys" for k
  proof -
    have k: "k < length xs" using that len by simp
    show ?thesis
      using assms(1) k len same_shape_child[OF assms(2) k] same_shape_children[OF assms(2) k]
        same_shape_sum_len[OF assms(2) k]
      by (simp add: wf_nodes_alt)
  qed
  ultimately show ?thesis by (simp add: wf_nodes_alt)
qed

lemma build_shape:
  "QuadTreeNode_build f nodes idx = Some res \<Longrightarrow> same_shape nodes res"
proof (induction f arbitrary: nodes idx res)
  case 0
  then show ?case by simp
next
  case (Suc f)
  have step: "same_shape cur nxt"
    if "build_slot (QuadTreeNode_build f) idx (Some cur) i = Some nxt" "idx < length cur"
    for cur nxt :: "'a QuadTreeNode list" and i
    using that(1)
  proof (cases rule: build_slot_SomeE)
    case leaf
    then show ?thesis by simp
  next
    case (inner mid)
    from Suc.IH[OF inner(3)] have s: "same_shape cur mid" .
    then have "idx < length mid" using that(2) same_shape_length[of cur mid] by simp
    then have "same_shape mid nxt" unfolding inner(4) by (rule same_shape_setSum)
    with s show ?thesis by (rule same_shape_trans)
  qed
  from Suc.prems obtain n1 n2 n3 where len: "idx < length nodes"
    and s: "build_slot (QuadTreeNode_build f) idx (Some nodes) 0 = Some n1"
    "build_slot (QuadTreeNode_build f) idx (Some n1) 1 = Some n2"
    "build_slot (QuadTreeNode_build f) idx (Some n2) 2 = Some n3"
    "build_slot (QuadTreeNode_build f) idx (Some n3) 3 = Some res"
    by (rule build_SucE)
  have 1: "same_shape nodes n1" using step[OF s(1) len] .
  have l1: "idx < length n1" using len same_shape_length[OF 1] by simp
  have 2: "same_shape n1 n2" using step[OF s(2) l1] .
  have l2: "idx < length n2" using l1 same_shape_length[OF 2] by simp
  have 3: "same_shape n2 n3" using step[OF s(3) l2] .
  have l3: "idx < length n3" using l2 same_shape_length[OF 3] by simp
  have 4: "same_shape n3 res" using step[OF s(4) l3] .
  show ?case
    using same_shape_trans[OF same_shape_trans[OF same_shape_trans[OF 1 2] 3] 4] .
qed

lemma setSum_same: "setSum n i (sum_at n i) = n"
  by (simp add: setSum_def sum_at_def)

lemma build_slot_built_id:
  assumes rec: "\<And>c res. built cur c \<Longrightarrow> rec cur c = Some res \<Longrightarrow> res = cur"
    and b: "built cur idx" and i: "i < 4"
    and s: "build_slot rec idx (Some cur) i = Some nxt"
  shows "nxt = cur"
  using s
proof (cases rule: build_slot_SomeE)
  case leaf
  then show ?thesis by simp
next
  case (inner mid)
  from b inner(1) i have e: "sum_at (cur ! idx) i = sum4 (cur ! child (cur ! idx) i)"
    and bc: "built cur (child (cur ! idx) i)"
    by (auto elim: built.cases)
  from rec[OF bc inner(3)] have "mid = cur" .
  with inner(4) e show ?thesis
    by (metis list_update_id setSum_same)
qed

lemma build_built_id:
  "built nodes idx \<Longrightarrow> QuadTreeNode_build f nodes idx = Some res \<Longrightarrow> res = nodes"
proof (induction f arbitrary: idx res)
  case 0
  then show ?case by simp
next
  case (Suc f)
  from Suc.prems(2) obtain n1 n2 n3 where len: "idx < length nodes"
    and s: "build_slot (QuadTreeNode_build f) idx (Some nodes) 0 = Some n1"
    "build_slot (QuadTreeNode_build f) idx (Some n1) 1 = Some n2"
    "build_slot (QuadTreeNode_build f) idx (Some n2) 2 = Some n3"
    "build_slot (QuadTreeNode_build f) idx (Some n3) 3 = Some res"
    by (rule build_SucE)
  have rec: "\<And>c r. built nodes c \<Longrightarrow> QuadTreeNode_build f nodes c = Some r \<Longrightarrow> r = nodes"
    using Suc.IH by blast
  have 1: "n1 = nodes" using build_slot_built_id[OF rec Suc.prems(1) _ s(1)] by simp
  have 2: "n2 = nodes" using build_slot_built_id[OF rec Suc.prems(1) _ s(2)[unfolded 1]] by simp
  have 3: "n3 = nodes" using build_slot_built_id[OF rec Suc.prems(1) _ s(3)[unfolded 2]] by simp
  show ?case using build_slot_built_id[OF rec Suc.prems(1) _ s(4)[unfolded 3]] by simp
qed

lemma built_update_other:
  "built mid k \<Longrightarrow> \<not> built mid idx \<Longrightarrow> built (mid[idx := n']) k \<and> k \<noteq> idx"
proof (induction rule: built.induct)
  case (builtI k mid)
  note nb = builtI.prems
  have bk: "built mid k"
    using builtI.hyps builtI.IH nb by (intro built.builtI) auto
  with nb have ne: "k \<noteq> idx" by auto
  have "built (mid[idx := n']) k"
  proof (rule built.builtI)
    show "k < length (mid[idx := n'])" using builtI.hyps by simp
  next
    fix i assume i: "i < 4" and nl: "\<not> isLeaf (mid[idx := n'] ! k) i"
    from ne have same: "mid[idx := n'] ! k = mid ! k" by simp
    from nl same have nl': "\<not> isLeaf (mid ! k) i" by simp
    from builtI.IH[OF i nl'] nb have e: "sum_at (mid ! k) i = sum4 (mid ! child (mid ! k) i)"
      and b: "built (mid[idx := n']) (child (mid ! k) i)" and c: "child (mid ! k) i \<noteq> idx"
      by auto
    from c have "mid[idx := n'] ! child (mid ! k) i = mid ! child (mid ! k) i" by simp
    with e b same
    show "sum_at (mid[idx := n'] ! k) i = sum4 (mid[idx := n'] ! child (mid[idx := n'] ! k) i) \<and>
          built (mid[idx := n']) (child (mid[idx := n'] ! k) i)"
      by simp
  qed
  with ne show ?case by simp
qed

lemma build_slot_built_keep:
  assumes recP: "\<And>c r k. rec cur c = Some r \<Longrightarrow> built cur k \<Longrightarrow> built r k \<and> r ! k = cur ! k"
    and recS: "\<And>c r. rec cur c = Some r \<Longrightarrow> same_shape cur r"
    and len: "idx < length cur" and i: "i < 4"
    and s: "build_slot rec idx (Some cur) i = Some nxt"
    and b: "built cur k"
  shows "built nxt k \<and> nxt ! k = cur ! k"
  using s
proof (cases rule: build_slot_SomeE)
  case leaf
  with b show ?thesis by simp
next
  case (inner mid)
  let ?c = "child (cur ! idx) i"
  from recP[OF inner(3) b] have bm: "built mid k" and em: "mid ! k = cur ! k" by auto
  from recS[OF inner(3)] have sh: "same_shape cur mid" .
  have ch: "child (mid ! idx) i = ?c" using same_shape_child[OF sh len] .
  show ?thesis
  proof (cases "built mid idx")
    case True
    from inner(1) ch have "\<not> isLeaf (mid ! idx) i" by (simp add: isLeaf_def)
    with True i have "sum_at (mid ! idx) i = sum4 (mid ! child (mid ! idx) i)"
      by (auto elim: built.cases)
    with ch have "setSum (mid ! idx) i (sum4 (mid ! ?c)) = mid ! idx"
      by (metis setSum_same)
    with inner(4) have "nxt = mid" by simp
    with bm em show ?thesis by simp
  next
    case False
    from built_update_other[OF bm False, of "setSum (mid ! idx) i (sum4 (mid ! ?c))"] inner(4)
    have "built nxt k" and "k \<noteq> idx" by auto
    then show ?thesis using inner(4) em by simp
  qed
qed

lemma build_built_keep:
  "QuadTreeNode_build f nodes idx = Some res \<Longrightarrow> built nodes k \<Longrightarrow>
   built res k \<and> res ! k = nodes ! k"
proof (induction f arbitrary: nodes idx res k)
  case 0
  then show ?case by simp
next
  case (Suc f)
  let ?s = "build_slot (QuadTreeNode_build f) idx"
  from Suc.prems(1) obtain n1 n2 n3 where len: "idx < length nodes"
    and s: "?s (Some nodes) 0 = Some n1" "?s (Some n1) 1 = Some n2"
    "?s (Some n2) 2 = Some n3" "?s (Some n3) 3 = Some res"
    by (rule build_SucE)
  have step: "built nxt k \<and> nxt ! k = cur ! k \<and> idx < length nxt"
    if "?s (Some cur) i = Some nxt" "built cur k" "idx < length cur" "i < 4"
    for cur nxt :: "'a QuadTreeNode list" and i
  proof -
    have "built nxt k \<and> nxt ! k = cur ! k"
      by (rule build_slot_built_keep[where rec = "QuadTreeNode_build f", OF _ _ that(3,4,1,2)])
         (use Suc.IH build_shape in blast)+
    moreover have "same_shape cur nxt"
      using that(1)
    proof (cases rule: build_slot_SomeE)
      case leaf
      then show ?thesis by simp
    next
      case (inner mid)
      have sh: "same_shape cur mid" using build_shape[OF inner(3)] .
      then have "idx < length mid" using that(3) same_shape_length[of cur mid] by simp
      then have "same_shape mid nxt" unfolding inner(4) by (rule same_shape_setSum)
      with sh show ?thesis by (rule same_shape_trans)
    qed
    ultimately show ?thesis using that(3) same_shape_length[of cur nxt] by simp
  qed
  from step[OF s(1) Suc.prems(2) len] have 1: "built n1 k" "n1 ! k = nodes ! k" "idx < length n1"
    by auto
  from step[OF s(2) 1(1) 1(3)] have 2: "built n2 k" "n2 ! k = n1 ! k" "idx < length n2" by auto
  from step[OF s(3) 2(1) 2(3)] have 3: "built n3 k" "n3 ! k = n2 ! k" "idx < length n3" by auto
  from step[OF s(4) 3(1) 3(3)] have 4: "built res k" "res ! k = n3 ! k" by auto
  from 1 2 3 4 show ?case by simp
qed

lemma wf_nodes_child:
  assumes "wf_nodes nodes" "k < length nodes" "i < 4" "\<not> isLeaf (nodes ! k) i"
  shows "k < child (nodes ! k) i \<and> child (nodes ! k) i < length nodes"
proof -
  from assms(1,2) have "\<forall>i < 4. child (nodes ! k) i = 0 \<or>
      (k < child (nodes ! k) i \<and> child (nodes ! k) i < length nodes)"
    by (simp add: wf_nodes_alt)
  with assms(3) have "child (nodes ! k) i = 0 \<or>
      (k < child (nodes ! k) i \<and> child (nodes ! k) i < length nodes)"
    by (rule_tac allE) auto
  with assms(4) show ?thesis by (simp add: isLeaf_def)
qed

lemma wf_nodes_sum_len: "wf_nodes nodes \<Longrightarrow> k < length nodes \<Longrightarrow> length (m_sum (nodes ! k)) = 4"
  by (simp add: wf_nodes_alt)

lemma same_shape_isLeaf:
  "same_shape xs ys \<Longrightarrow> k < length xs \<Longrightarrow> isLeaf (ys ! k) i = isLeaf (xs ! k) i"
  using same_shape_child[of xs ys k i] by (simp add: isLeaf_def)

lemma build_slot_shape:
  assumes "build_slot (QuadTreeNode_build f) idx (Some cur) i = Some nxt" "idx < length cur"
  shows "same_shape cur nxt"
  using assms(1)
proof (cases rule: build_slot_SomeE)
  case leaf
  then show ?thesis by simp
next
  case (inner mid)
  have sh: "same_shape cur mid" using build_shape[OF inner(3)] .
  then have "idx < length mid" using assms(2) same_shape_length[of cur mid] by simp
  then have "same_shape mid nxt" unfolding inner(4) by (rule same_shape_setSum)
  with sh show ?thesis by (rule same_shape_trans)
qed

lemma build_frame_low:
  "wf_nodes nodes \<Longrightarrow> QuadTreeNode_build f nodes idx = Some res \<Longrightarrow> k < idx \<Longrightarrow>
   res ! k = nodes ! k"
proof (induction f arbitrary: nodes idx res)
  case 0
  then show ?case by simp
next
  case (Suc f)
  let ?s = "build_slot (QuadTreeNode_build f) idx"
  from Suc.prems(2) obtain n1 n2 n3 where len: "idx < length nodes"
    and s: "?s (Some nodes) 0 = Some n1" "?s (Some n1) 1 = Some n2"
    "?s (Some n2) 2 = Some n3" "?s (Some n3) 3 = Some res"
    by (rule build_SucE)
  have step: "nxt ! k = cur ! k \<and> wf_nodes nxt \<and> idx < length nxt"
    if "?s (Some cur) i = Some nxt" "wf_nodes cur" "idx < length cur" "i < 4"
    for cur nxt :: "'a QuadTreeNode list" and i
  proof -
    have sh: "same_shape cur nxt" using build_slot_shape[OF that(1,3)] .
    have "nxt ! k = cur ! k"
      using that(1)
    proof (cases rule: build_slot_SomeE)
      case leaf
      then show ?thesis by simp
    next
      case (inner mid)
      from wf_nodes_child[OF that(2,3,4) inner(1)] have "idx < child (cur ! idx) i" by simp
      with Suc.prems(3) have "k < child (cur ! idx) i" by simp
      from Suc.IH[OF that(2) inner(3) this] have "mid ! k = cur ! k" .
      with inner(4) Suc.prems(3) show ?thesis by simp
    qed
    with sh that(2,3) wf_nodes_shape[OF that(2) sh] same_shape_length[OF sh]
    show ?thesis by simp
  qed
  from step[OF s(1) Suc.prems(1) len] have 1: "n1 ! k = nodes ! k" "wf_nodes n1" "idx < length n1"
    by auto
  from step[OF s(2) 1(2,3)] have 2: "n2 ! k = n1 ! k" "wf_nodes n2" "idx < length n2" by auto
  from step[OF s(3) 2(2,3)] have 3: "n3 ! k = n2 ! k" "wf_nodes n3" "idx < length n3" by auto
  from step[OF s(4) 3(2,3)] have 4: "res ! k = n3 ! k" by auto
  from 1 2 3 4 show ?case by simp
qed

lemma built_update_below:
  "built mid k \<Longrightarrow> wf_nodes mid \<Longrightarrow> idx < k \<Longrightarrow> built (mid[idx := n']) k"
proof (induction rule: built.induct)
  case (builtI k mid)
  show ?case
  proof (rule built.builtI)
    show "k < length (mid[idx := n'])" using builtI.hyps by simp
  next
    fix i assume i: "i < 4" and nl: "\<not> isLeaf (mid[idx := n'] ! k) i"
    from builtI.prems(2) have same: "mid[idx := n'] ! k = mid ! k" by simp
    from nl same have nl': "\<not> isLeaf (mid ! k) i" by simp
    from wf_nodes_child[OF builtI.prems(1) builtI.hyps i nl'] builtI.prems(2)
    have c: "idx < child (mid ! k) i" by simp
    from builtI.IH[OF i nl'] builtI.prems(1) c
    have e: "sum_at (mid ! k) i = sum4 (mid ! child (mid ! k) i)"
      and b: "built (mid[idx := n']) (child (mid ! k) i)"
      by auto
    from c have "mid[idx := n'] ! child (mid ! k) i = mid ! child (mid ! k) i" by simp
    with e b same
    show "sum_at (mid[idx := n'] ! k) i = sum4 (mid[idx := n'] ! child (mid[idx := n'] ! k) i) \<and>
          built (mid[idx := n']) (child (mid[idx := n'] ! k) i)"
      by simp
  qed
qed

lemma sum_at_setSum:
  "j < length (m_sum n) \<Longrightarrow> sum_at (setSum n j v) i = (if i = j then v else sum_at n i)"
  by (simp add: sum_at_def setSum_def)

lemma build_slot_slots_built:
  fixes nodes cur nxt :: "'a::{zero,plus} QuadTreeNode list"
  assumes wf: "wf_nodes nodes" and len: "idx < length nodes" and j: "j < 4"
    and IH: "\<And>(ns :: 'a::{zero,plus} QuadTreeNode list) c r. wf_nodes ns \<Longrightarrow> QuadTreeNode_build f ns c = Some r \<Longrightarrow> built r c"
    and inv: "slots_built nodes cur idx j"
    and s: "build_slot (QuadTreeNode_build f) idx (Some cur) j = Some nxt"
  shows "slots_built nodes nxt idx (Suc j)"
proof -
  from inv have sh: "same_shape nodes cur" by (simp add: slots_built_def)
  have lc: "idx < length cur" using len same_shape_length[OF sh] by simp
  have wfc: "wf_nodes cur" using wf_nodes_shape[OF wf sh] .
  have shn: "same_shape nodes nxt"
    using same_shape_trans[OF sh build_slot_shape[OF s lc]] .
  have chc: "child (cur ! idx) i = child (nodes ! idx) i" for i
    using same_shape_child[OF sh len] .
  from s show ?thesis
  proof (cases rule: build_slot_SomeE)
    case leaf
    from leaf(1) have "isLeaf (nodes ! idx) j" using same_shape_isLeaf[OF sh len] by simp
    with inv leaf(2) show ?thesis
      by (auto simp: slots_built_def less_Suc_eq)
  next
    case (inner mid)
    let ?c = "child (nodes ! idx) j"
    let ?v = "sum4 (mid ! ?c)"
    have r: "QuadTreeNode_build f cur ?c = Some mid" using inner(3) chc by simp
    have nx: "nxt = mid[idx := setSum (mid ! idx) j ?v]" using inner(4) chc by simp
    have shm: "same_shape cur mid" using build_shape[OF r] .
    have wfm: "wf_nodes mid" using wf_nodes_shape[OF wfc shm] .
    have lm: "idx < length mid" using lc same_shape_length[OF shm] by simp
    have cj: "idx < ?c" using wf_nodes_child[OF wfc lc j inner(1)] chc by simp
    have bc: "built mid ?c" using IH[OF wfc r] .
    have mi: "mid ! idx = cur ! idx" using build_frame_low[OF wfc r cj] .
    have l4: "j < length (m_sum (mid ! idx))" using wf_nodes_sum_len[OF wfm lm] j by simp
    have "sum_at (nxt ! idx) i = sum4 (nxt ! child (nodes ! idx) i) \<and> built nxt (child (nodes ! idx) i)"
      if i: "i < Suc j" and nl: "\<not> isLeaf (nodes ! idx) i" for i
    proof (cases "i = j")
      case True
      have "sum_at (nxt ! idx) j = ?v" using nx lm l4 by (simp add: sum_at_setSum)
      moreover have "nxt ! ?c = mid ! ?c" using nx cj by simp
      moreover have "built nxt ?c" unfolding nx using built_update_below[OF bc wfm cj] .
      ultimately show ?thesis using True by simp
    next
      case False
      with i have ij: "i < j" by simp
      let ?ci = "child (nodes ! idx) i"
      from inv ij nl have e: "sum_at (cur ! idx) i = sum4 (cur ! ?ci)" and b: "built cur ?ci"
        by (auto simp: slots_built_def)
      have i4: "i < 4" using ij j by simp
      have nlc: "\<not> isLeaf (cur ! idx) i" using nl same_shape_isLeaf[OF sh len] by simp
      have ci: "idx < ?ci" using wf_nodes_child[OF wfc lc i4 nlc] chc by simp
      from build_built_keep[OF r b] have bm: "built mid ?ci" and em: "mid ! ?ci = cur ! ?ci" by auto
      have "sum_at (nxt ! idx) i = sum_at (mid ! idx) i"
        using nx lm l4 False by (simp add: sum_at_setSum)
      moreover have "nxt ! ?ci = mid ! ?ci" using nx ci by simp
      moreover have "built nxt ?ci" unfolding nx using built_update_below[OF bm wfm ci] .
      ultimately show ?thesis using e em mi by simp
    qed
    with shn show ?thesis by (simp add: slots_built_def)
  qed
qed

lemma build_built:
  "wf_nodes nodes \<Longrightarrow> QuadTreeNode_build f nodes idx = Some res \<Longrightarrow> built res idx"
proof (induction f arbitrary: nodes idx res)
  case 0
  then show ?case by simp
next
  case (Suc f)
  let ?s = "build_slot (QuadTreeNode_build f) idx"
  from Suc.prems(2) obtain n1 n2 n3 where len: "idx < length nodes"
    and s: "?s (Some nodes) 0 = Some n1" "?s (Some n1) 1 = Some n2"
    "?s (Some n2) 2 = Some n3" "?s (Some n3) 3 = Some res"
    by (rule build_SucE)
  note step = build_slot_slots_built[OF Suc.prems(1) len _ Suc.IH]
  have 0: "slots_built nodes nodes idx 0" by (simp add: slots_built_def)
  have 1: "slots_built nodes n1 idx (Suc 0)" using step[OF _ _ _ 0 s(1)] by simp
  have 2: "slots_built nodes n2 idx (Suc (Suc 0))" using step[OF _ _ _ 1] s(2) by simp
  have 3: "slots_built nodes n3 idx (Suc (Suc (Suc 0)))" using step[OF _ _ _ 2] s(3)
    by (simp add: numeral_2_eq_2)
  have 4: "slots_built nodes res idx (Suc (Suc (Suc (Suc 0))))" using step[OF _ _ _ 3] s(4)
    by (simp add: numeral_3_eq_3)
  from 4 have sh: "same_shape nodes res" by (simp add: slots_built_def)
  show ?case
  proof (rule built.builtI)
    show "idx < length res" using len same_shape_length[OF sh] by simp
  next
    fix i assume i: "i < 4" and nl: "\<not> isLeaf (res ! idx) i"
    have i': "i < Suc (Suc (Suc (Suc 0)))" using i by simp
    from nl have "\<not> isLeaf (nodes ! idx) i" using same_shape_isLeaf[OF sh len] by simp
    with 4 i' have "sum_at (res ! idx) i = sum4 (res ! child (nodes ! idx) i) \<and>
      built res (child (nodes ! idx) i)"
      unfolding slots_built_def by blast
    then show "sum_at (res ! idx) i = sum4 (res ! child (res ! idx) i) \<and>
      built res (child (res ! idx) i)"
      using same_shape_child[OF sh len] by simp
  qed
qed

lemma build_slot_total:
  fixes cur :: "'a::{zero,plus} QuadTreeNode list"
  assumes wf: "wf_nodes cur" and len: "idx < length cur" and i: "i < 4"
    and IH: "\<And>c. idx < c \<Longrightarrow> c < length cur \<Longrightarrow> \<exists>r. rec cur c = Some r"
  shows "\<exists>nxt. build_slot rec idx (Some cur) i = Some nxt"
proof (cases "isLeaf (cur ! idx) i")
  case True
  then show ?thesis by (simp add: build_slot_def)
next
  case False
  from wf_nodes_child[OF wf len i False]
  have c: "idx < child (cur ! idx) i" "child (cur ! idx) i < length cur" by auto
  from IH[OF c] obtain r where "rec cur (child (cur ! idx) i) = Some r" by blast
  with False c show ?thesis by (simp add: build_slot_def Let_def)
qed

lemma build_total:
  fixes nodes :: "'a::{zero,plus} QuadTreeNode list"
  shows "wf_nodes nodes \<Longrightarrow> idx < length nodes \<Longrightarrow> length nodes - idx \<le> f \<Longrightarrow>
   \<exists>res. QuadTreeNode_build f nodes idx = Some res"
proof (induction f arbitrary: nodes idx)
  case 0
  then show ?case by simp
next
  case (Suc f)
  let ?s = "build_slot (QuadTreeNode_build f) idx"
  have step: "\<exists>nxt. ?s (Some cur) i = Some nxt \<and> wf_nodes nxt \<and> length nxt = length nodes"
    if "wf_nodes cur" "length cur = length nodes" "i < 4"
    for cur :: "'a QuadTreeNode list" and i
  proof -
    have lc: "idx < length cur" using Suc.prems(2) that(2) by simp
    have "\<exists>r. QuadTreeNode_build f cur c = Some r" if "idx < c" "c < length cur" for c
      using Suc.IH[OF \<open>wf_nodes cur\<close> that(2)] Suc.prems(3) that(1) \<open>length cur = length nodes\<close>
      by simp
    from build_slot_total[OF that(1) lc that(3), of "QuadTreeNode_build f"] this
    obtain nxt where n: "?s (Some cur) i = Some nxt" by blast
    have sh: "same_shape cur nxt" using build_slot_shape[OF n lc] .
    show ?thesis
      using n wf_nodes_shape[OF that(1) sh] same_shape_length[OF sh] that(2) by simp
  qed
  from step[OF Suc.prems(1), of 0] obtain n1 where
    1: "?s (Some nodes) 0 = Some n1" "wf_nodes n1" "length n1 = length nodes" by auto
  from step[OF 1(2,3), of 1] obtain n2 where
    2: "?s (Some n1) 1 = Some n2" "wf_nodes n2" "length n2 = length nodes" by auto
  from step[OF 2(2,3), of 2] obtain n3 where
    3: "?s (Some n2) 2 = Some n3" "wf_nodes n3" "length n3 = length nodes" by auto
  from step[OF 3(2,3), of 3] obtain n4 where
    4: "?s (Some n3) 3 = Some n4" by auto
  from 1(1) 2(1) 3(1) 4 Suc.prems(2) show ?case by simp
qed

lemma wf_nodes_length: "wf_nodes nodes \<Longrightarrow> 0 < length nodes"
  by (simp add: wf_nodes_alt)

text \<open>
  Claim C8. \<^verbatim>\<open>DTree::build\<close> is idempotent. For a well-formed node vector the
  build returns (fuel equal to the number of nodes is enough), and whenever a first
  build returns \<open>t1\<close> and a second build on \<open>t1\<close> returns \<open>t2\<close>, whatever the fuel,
  \<open>t2\<close> is \<open>t1\<close>: every sum of every node and the atomic root sum are the same. The
  type of the sums is arbitrary, with an arbitrary \<open>+\<close>, so the result does not rest
  on associativity or exactness of the addition.
\<close>

theorem DTree_build_idempotent:
  fixes t :: "'a::{zero,plus} DTree"
  assumes wf: "wf_nodes (m_nodes t)"
  shows "(\<exists>t1. DTree_build (length (m_nodes t)) t = Some t1) \<and>
         (\<forall>f g t1 t2. DTree_build f t = Some t1 \<and> DTree_build g t1 = Some t2 \<longrightarrow> t2 = t1)"
proof (intro conjI allI impI)
  from build_total[OF wf wf_nodes_length[OF wf], of "length (m_nodes t)"]
  obtain res where "QuadTreeNode_build (length (m_nodes t)) (m_nodes t) 0 = Some res"
    by auto
  then show "\<exists>t1. DTree_build (length (m_nodes t)) t = Some t1"
    by (simp add: DTree_build_def)
next
  fix f g t1 t2
  assume a: "DTree_build f t = Some t1 \<and> DTree_build g t1 = Some t2"
  then obtain n1 where n1: "QuadTreeNode_build f (m_nodes t) 0 = Some n1"
    and t1: "t1 = t\<lparr>m_nodes := n1, atomic_sum := sum4 (n1 ! 0)\<rparr>"
    by (auto simp: DTree_build_def split: option.splits)
  from a t1 obtain n2 where n2: "QuadTreeNode_build g n1 0 = Some n2"
    and t2: "t2 = t1\<lparr>m_nodes := n2, atomic_sum := sum4 (n2 ! 0)\<rparr>"
    by (auto simp: DTree_build_def split: option.splits)
  from build_built[OF wf n1] have "built n1 0" .
  from build_built_id[OF this n2] have "n2 = n1" .
  with t1 t2 show "t2 = t1" by simp
qed

lemma wf_exampleTree: "wf_nodes (m_nodes exampleTree)"
  by code_simp

lemma wf_exampleTreeBuilt: "wf_nodes (m_nodes exampleTreeBuilt)"
  by code_simp

theorem DTree_build_idempotent_witness:
  "wf_nodes (m_nodes exampleTree) \<and>
   DTree_build 2 exampleTree = Some exampleTreeBuilt \<and>
   DTree_build 2 exampleTreeBuilt = Some exampleTreeBuilt"
proof -
  have b: "DTree_build 2 exampleTree = Some exampleTreeBuilt"
    by (simp add: DTree_build_def exampleTree_def exampleTreeBuilt_def numeral_2_eq_2
        build_slot_def isLeaf_def child_def sum4_def sum_at_def setSum_def)
  have l: "length (m_nodes exampleTreeBuilt) = 2" by (simp add: exampleTreeBuilt_def)
  from DTree_build_idempotent[OF wf_exampleTreeBuilt] l
  obtain t1 where t1: "DTree_build 2 exampleTreeBuilt = Some t1" by auto
  from DTree_build_idempotent[OF wf_exampleTree] b t1 have "t1 = exampleTreeBuilt" by blast
  with b t1 wf_exampleTree show ?thesis by simp
qed

section \<open>Verification of \<^verbatim>\<open>pdf\<close> and \<^verbatim>\<open>recordIrradiance\<close>\<close>

lemma childIndex_axis_range:
  "0 \<le> c \<Longrightarrow> c \<le> 1 \<Longrightarrow> fst (childIndex_axis c) < 2 \<and>
     0 \<le> snd (childIndex_axis c) \<and> snd (childIndex_axis c) \<le> 1"
  by (simp add: childIndex_axis_def)

lemma childIndex_range:
  assumes "in_unit_square p"
  shows "fst (childIndex p) < 4 \<and> in_unit_square (snd (childIndex p))"
proof -
  from assms have x: "0 \<le> fst p" "fst p \<le> 1" and y: "0 \<le> snd p" "snd p \<le> 1"
    by (simp_all add: in_unit_square_def)
  from childIndex_axis_range[OF x] childIndex_axis_range[OF y]
  show ?thesis
    by (auto simp: childIndex_def in_unit_square_def split: prod.splits)
qed

lemma pdf_descent:
  "QuadTreeNode_pdf f nodes idx p level c = Inr (r, c') \<Longrightarrow>
   r = (if \<exists>s \<in> set (descent f nodes idx p level c). dead_slot nodes s then 0
        else prod_list (map (slot_factor nodes) (descent f nodes idx p level c)))"
proof (induction f arbitrary: idx p c r c')
  case 0
  then show ?case by simp
next
  case (Suc f)
  obtain index p' where ci: "childIndex p = (index, p')" by (cases "childIndex p")
  let ?node = "nodes ! idx"
  let ?factor = "4 * sum_at ?node index / sum_total ?node"
  let ?rest = "if isLeaf ?node index \<or> level = c then []
               else descent f nodes (child ?node index) p' level (c + 1)"
  have D: "descent (Suc f) nodes idx p level c = (idx, index) # ?rest"
    using ci by simp
  from Suc.prems have ok: "idx < length nodes" "in_unit_square p"
    by (auto split: if_splits)
  show ?case
  proof (cases "sum_at ?node index > 0")
    case False
    with Suc.prems ci ok have "r = 0" by (simp add: Let_def)
    moreover from False have "dead_slot nodes (idx, index)" by (simp add: dead_slot_def)
    ultimately show ?thesis unfolding D by simp
  next
    case pos: True
    then have nd: "\<not> dead_slot nodes (idx, index)" by (simp add: dead_slot_def)
    have sf: "slot_factor nodes (idx, index) = ?factor" by (simp add: slot_factor_def)
    show ?thesis
    proof (cases "isLeaf ?node index \<or> level = c")
      case True
      with Suc.prems ci ok pos have "r = ?factor" by (auto simp: Let_def)
      with True nd sf show ?thesis unfolding D by simp
    next
      case False
      with Suc.prems ci ok pos obtain r1 where
        rec: "QuadTreeNode_pdf f nodes (child ?node index) p' level (c + 1) = Inr (r1, c')"
        and r: "r = ?factor * r1"
        by (auto simp: Let_def split: sum.splits)
      from Suc.IH[OF rec] have
        "r1 = (if \<exists>s \<in> set (descent f nodes (child ?node index) p' level (c + 1)). dead_slot nodes s
               then 0
               else prod_list (map (slot_factor nodes)
                      (descent f nodes (child ?node index) p' level (c + 1))))" .
      with r False nd sf show ?thesis unfolding D by simp
    qed
  qed
qed

lemma pdf_total:
  "wf_nodes nodes \<Longrightarrow> idx < length nodes \<Longrightarrow> in_unit_square p \<Longrightarrow> length nodes - idx \<le> f \<Longrightarrow>
   \<exists>r c'. QuadTreeNode_pdf f nodes idx p level c = Inr (r, c')"
proof (induction f arbitrary: idx p c)
  case 0
  then show ?case by simp
next
  case (Suc f)
  obtain index p' where ci: "childIndex p = (index, p')" by (cases "childIndex p")
  from childIndex_range[OF Suc.prems(3)] ci have i4: "index < 4" and sq: "in_unit_square p'"
    by auto
  let ?node = "nodes ! idx"
  show ?case
  proof (cases "\<not> sum_at ?node index > 0 \<or> isLeaf ?node index \<or> level = c")
    case True
    with Suc.prems(2,3) ci show ?thesis by (auto simp: Let_def)
  next
    case False
    then have nl: "\<not> isLeaf ?node index" by simp
    from wf_nodes_child[OF Suc.prems(1,2) i4 nl]
    have ch: "idx < child ?node index" "child ?node index < length nodes" by auto
    with Suc.prems(4) have "length nodes - child ?node index \<le> f" by simp
    from Suc.IH[OF Suc.prems(1) ch(2) sq this, of "c + 1"] obtain r1 c1 where
      "QuadTreeNode_pdf f nodes (child ?node index) p' level (c + 1) = Inr (r1, c1)" by blast
    with False Suc.prems(2,3) ci show ?thesis by (simp add: Let_def)
  qed
qed

lemma pdf_dead_head:
  assumes "QuadTreeNode_pdf f nodes idx p level c = Inr (r, c')"
    and "sum_at (nodes ! idx) (fst (childIndex p)) \<le> 0"
  shows "r = 0"
proof (cases f)
  case 0
  with assms show ?thesis by simp
next
  case (Suc f')
  with assms show ?thesis
    by (auto simp: Let_def split: if_splits prod.splits)
qed

text \<open>
  Claim C6. For a point of the unit square and a node of a well-formed node vector,
  \<^verbatim>\<open>QuadTreeNode::pdf\<close> returns (fuel equal to the number of nodes is enough). Whenever it
  returns \<open>r\<close>: \<open>r\<close> is 0 if the slot selected by the point has a non-positive sum, and in
  general \<open>r\<close> is 0 if some slot of the descent has a non-positive sum and otherwise the
  product of the factors \<open>4 * sum[i] / (sum[0] + sum[1] + sum[2] + sum[3])\<close> along the
  descent, which ends at a leaf slot or where \<^verbatim>\<open>curr\<close> equals \<^verbatim>\<open>level\<close>.
\<close>

theorem QuadTreeNode_pdf_product:
  assumes wf: "wf_nodes nodes" and idx: "idx < length nodes" and sq: "in_unit_square p"
  shows "(\<exists>r c. QuadTreeNode_pdf (length nodes) nodes idx p level curr_level = Inr (r, c)) \<and>
         (\<forall>f r c. QuadTreeNode_pdf f nodes idx p level curr_level = Inr (r, c) \<longrightarrow>
            (sum_at (nodes ! idx) (fst (childIndex p)) \<le> 0 \<longrightarrow> r = 0) \<and>
            r = (if \<exists>s \<in> set (descent f nodes idx p level curr_level). dead_slot nodes s then 0
                 else prod_list (map (slot_factor nodes) (descent f nodes idx p level curr_level))))"
proof -
  have "\<exists>r c. QuadTreeNode_pdf (length nodes) nodes idx p level curr_level = Inr (r, c)"
    using pdf_total[OF wf idx sq, of "length nodes"] by simp
  moreover have "(sum_at (nodes ! idx) (fst (childIndex p)) \<le> 0 \<longrightarrow> r = 0) \<and>
            r = (if \<exists>s \<in> set (descent f nodes idx p level curr_level). dead_slot nodes s then 0
                 else prod_list (map (slot_factor nodes) (descent f nodes idx p level curr_level)))"
    if "QuadTreeNode_pdf f nodes idx p level curr_level = Inr (r, c)" for f r c
    using pdf_descent[OF that] pdf_dead_head[OF that] by blast
  ultimately show ?thesis by blast
qed


lemma wf_treeRefined: "wf_nodes (m_nodes treeRefined)"
  by code_simp

lemma wf_treeFlat: "wf_nodes (m_nodes treeFlat)"
  by code_simp

theorem QuadTreeNode_pdf_product_witness:
  "wf_nodes (m_nodes treeRefined) \<and> 0 < length (m_nodes treeRefined) \<and>
   in_unit_square (1 / 8, 1 / 8) \<and>
   QuadTreeNode_pdf 2 (m_nodes treeRefined) 0 (1 / 8, 1 / 8) (- 1) 0 = Inr (5 / 2, 1) \<and>
   descent 2 (m_nodes treeRefined) 0 (1 / 8, 1 / 8) (- 1) 0 = [(0, 0), (1, 0)] \<and>
   5 / 2 = prod_list (map (slot_factor (m_nodes treeRefined)) [(0, 0), (1, 0)])"
proof -
  have l: "0 < length (m_nodes treeRefined)" by (simp add: treeRefined_def)
  have sq: "in_unit_square (1 / 8, 1 / 8)" by (simp add: in_unit_square_def)
  have e: "QuadTreeNode_pdf 2 (m_nodes treeRefined) 0 (1 / 8, 1 / 8) (- 1) 0 = Inr (5 / 2, 1)"
    by code_simp
  have d: "descent 2 (m_nodes treeRefined) 0 (1 / 8, 1 / 8) (- 1) 0 = [(0, 0), (1, 0)]"
    by code_simp
  have nd: "\<not> (\<exists>s \<in> set [(0, 0), (1, 0)]. dead_slot (m_nodes treeRefined) s)"
    by (simp add: dead_slot_def treeRefined_def sum_at_def)
  from QuadTreeNode_pdf_product[OF wf_treeRefined l sq, of "- 1" 0] e
  have "5 / 2 = (if \<exists>s \<in> set (descent 2 (m_nodes treeRefined) 0 (1 / 8, 1 / 8) (- 1) 0).
                     dead_slot (m_nodes treeRefined) s then 0
                 else prod_list (map (slot_factor (m_nodes treeRefined))
                        (descent 2 (m_nodes treeRefined) 0 (1 / 8, 1 / 8) (- 1) 0)))"
    by blast
  with nd have "5 / 2 = prod_list (map (slot_factor (m_nodes treeRefined)) [(0, 0), (1, 0)])"
    unfolding d by simp
  with wf_treeRefined l sq e d show ?thesis by simp
qed


section \<open>Verification of the majorizing factor\<close>

lemma mf_slot_pos: "pair_pos s \<Longrightarrow> pair_pos (mf_slot this other np s i)"
  by (cases s) (auto simp: mf_slot_def pair_pos_def Let_def)

lemma foldl_mf_slot_pos: "pair_pos s \<Longrightarrow> pair_pos (foldl (mf_slot this other np) s is)"
  by (induction "is" arbitrary: s) (simp_all add: mf_slot_pos)

lemma mf_loop_pos:
  "mf_loop f this other s = Some res \<Longrightarrow> pair_pos s \<Longrightarrow> EPSILON \<le> fst res \<and> EPSILON \<le> snd res"
proof (induction f arbitrary: s)
  case 0
  obtain pp lg st where s: "s = (pp, lg, st)" by (cases s)
  with 0 show ?case by (cases st) (auto simp: pair_pos_def)
next
  case (Suc f)
  obtain pp lg st where s: "s = (pp, lg, st)" by (cases s)
  show ?case
  proof (cases st)
    case Nil
    with Suc.prems s show ?thesis by (auto simp: pair_pos_def)
  next
    case (Cons np rest)
    let ?s' = "foldl (mf_slot this other np) (pp, lg, rest) [0, 1, 2, 3]"
    from Suc.prems(1) s Cons have r: "mf_loop f this other ?s' = Some res"
      by (auto split: if_splits)
    from Suc.prems(2) s have "pair_pos (pp, lg, rest)" by (simp add: pair_pos_def)
    then have "pair_pos ?s'" by (rule foldl_mf_slot_pos)
    from Suc.IH[OF r this] show ?thesis .
  qed
qed

lemma mf_slot_stack:
  assumes wt: "wf_nodes this" and wo: "wf_nodes other" and ok: "mf_entry_ok this other np"
    and i: "i < 4"
  shows "\<exists>news. snd (snd (mf_slot this other np (pp, lg, st) i)) = news @ st \<and> length news \<le> 1 \<and>
           (\<forall>new \<in> set news. mf_entry_ok this other new \<and>
              mf_rank this other new < mf_rank this other np)"
proof -
  let ?a = "fst (nodeIndex np)" and ?b = "fst (otherNodeIndex np)"
  from ok have a: "?a < length this" and b: "?b < length other"
    and sa: "snd (nodeIndex np) < 0" and sb: "snd (otherNodeIndex np) < 0"
    by (auto simp: mf_entry_ok_def)
  have ps: "pair_slot (snd (nodeIndex np)) i = i" "pair_slot (snd (otherNodeIndex np)) i = i"
    using sa sb by (simp_all add: pair_slot_def)
  show ?thesis
  proof (cases "isLeaf (this ! ?a) i \<or> isLeaf (other ! ?b) i")
    case True
    then have "snd (snd (mf_slot this other np (pp, lg, st) i)) = [] @ st"
      by (simp add: mf_slot_def Let_def ps)
    then show ?thesis by (intro exI[of _ "[]"]) simp
  next
    case False
    then have nl: "\<not> isLeaf (this ! ?a) i" "\<not> isLeaf (other ! ?b) i" by auto
    from wf_nodes_child[OF wt a i nl(1)] have ca: "?a < child (this ! ?a) i" "child (this ! ?a) i < length this"
      by auto
    from wf_nodes_child[OF wo b i nl(2)] have cb: "?b < child (other ! ?b) i" "child (other ! ?b) i < length other"
      by auto
    let ?new = "\<lparr>nodeIndex = next_index this (nodeIndex np) i,
             otherNodeIndex = next_index other (otherNodeIndex np) i,
             nodeFactor = slot_pdf (nodeFactor np) (this ! ?a) (pair_denom (this ! ?a) (snd (nodeIndex np))) i,
             otherNodeFactor = slot_pdf (otherNodeFactor np) (other ! ?b) (pair_denom (other ! ?b) (snd (otherNodeIndex np))) i,
             nodeLevel = nodeLevel np + 1, otherNodeLevel = otherNodeLevel np + 1\<rparr>"
    have e: "snd (snd (mf_slot this other np (pp, lg, st) i)) = [?new] @ st"
      using False by (simp add: mf_slot_def Let_def ps)
    have n1: "next_index this (nodeIndex np) i = (child (this ! ?a) i, - 1)"
      and n2: "next_index other (otherNodeIndex np) i = (child (other ! ?b) i, - 1)"
      using nl by (simp_all add: next_index_def)
    have "mf_entry_ok this other ?new"
      using ca cb by (simp add: mf_entry_ok_def n1 n2)
    moreover have "mf_rank this other ?new < mf_rank this other np"
      using ca cb by (simp add: mf_rank_def n1 n2)
    ultimately show ?thesis using e by (intro exI[of _ "[?new]"]) simp
  qed
qed

lemma foldl_mf_slot_stack:
  assumes wt: "wf_nodes this" and wo: "wf_nodes other" and ok: "mf_entry_ok this other np"
  shows "\<forall>i \<in> set is. i < 4 \<Longrightarrow>
         \<exists>news. snd (snd (foldl (mf_slot this other np) (pp, lg, st) is)) = news @ st \<and>
           length news \<le> length is \<and>
           (\<forall>new \<in> set news. mf_entry_ok this other new \<and>
              mf_rank this other new < mf_rank this other np)"
proof (induction "is" arbitrary: pp lg st)
  case Nil
  then show ?case by simp
next
  case (Cons i "is")
  obtain pp1 lg1 st1 where s1: "mf_slot this other np (pp, lg, st) i = (pp1, lg1, st1)"
    by (cases "mf_slot this other np (pp, lg, st) i") auto
  from Cons.prems have i: "i < 4" and rest: "\<forall>i \<in> set is. i < 4" by auto
  from mf_slot_stack[OF wt wo ok i, of pp lg st] s1 obtain n1 where
    n1: "st1 = n1 @ st" "length n1 \<le> 1"
    "\<forall>new \<in> set n1. mf_entry_ok this other new \<and> mf_rank this other new < mf_rank this other np"
    by auto
  from Cons.IH[OF rest, of pp1 lg1 st1] obtain n2 where
    n2: "snd (snd (foldl (mf_slot this other np) (pp1, lg1, st1) is)) = n2 @ st1"
    "length n2 \<le> length is"
    "\<forall>new \<in> set n2. mf_entry_ok this other new \<and> mf_rank this other new < mf_rank this other np"
    by blast
  show ?case
    using s1 n1 n2 by (intro exI[of _ "n2 @ n1"]) auto
qed

lemma sum_list_pow_bound:
  assumes "\<forall>x \<in> set xs. r x < (n::nat)"
  shows "sum_list (map (\<lambda>x. (5::nat) ^ r x) xs) * 5 \<le> length xs * 5 ^ n"
  using assms
proof (induction xs)
  case Nil
  then show ?case by simp
next
  case (Cons x xs)
  then have "r x < n" by simp
  then have "Suc (r x) \<le> n" by simp
  then have "(5::nat) ^ Suc (r x) \<le> 5 ^ n" by (rule power_increasing) simp
  then have "(5::nat) ^ r x * 5 \<le> 5 ^ n" by (simp add: mult.commute)
  moreover from Cons have "sum_list (map (\<lambda>x. (5::nat) ^ r x) xs) * 5 \<le> length xs * 5 ^ n"
    by simp
  ultimately show ?case by (simp add: algebra_simps)
qed

lemma mf_measure_step:
  assumes wt: "wf_nodes this" and wo: "wf_nodes other" and ok: "mf_entry_ok this other np"
  shows "mf_measure this other
           (snd (snd (foldl (mf_slot this other np) (pp, lg, st) [0, 1, 2, 3])))
         < mf_measure this other (np # st)"
proof -
  from foldl_mf_slot_stack[OF wt wo ok, of "[0, 1, 2, 3]" pp lg st] obtain news where
    n: "snd (snd (foldl (mf_slot this other np) (pp, lg, st) [0, 1, 2, 3])) = news @ st"
    "length news \<le> 4"
    "\<forall>new \<in> set news. mf_rank this other new < mf_rank this other np"
    by auto
  let ?n = "mf_rank this other np"
  from sum_list_pow_bound[of news "mf_rank this other" ?n] n(3)
  have "mf_measure this other news * 5 \<le> length news * 5 ^ ?n"
    by (simp add: mf_measure_def)
  also have "\<dots> \<le> 4 * 5 ^ ?n" using n(2) by simp
  finally have "mf_measure this other news * 5 \<le> 4 * 5 ^ ?n" .
  moreover have "(0::nat) < 5 ^ ?n" by simp
  ultimately have "mf_measure this other news < 5 ^ ?n" by linarith
  then show ?thesis
    unfolding n(1) by (simp add: mf_measure_def)
qed

lemma mf_entries_ok_step:
  assumes wt: "wf_nodes this" and wo: "wf_nodes other" and ok: "mf_entry_ok this other np"
    and st: "\<forall>e \<in> set st. mf_entry_ok this other e"
  shows "\<forall>e \<in> set (snd (snd (foldl (mf_slot this other np) (pp, lg, st) [0, 1, 2, 3]))).
           mf_entry_ok this other e"
proof -
  from foldl_mf_slot_stack[OF wt wo ok, of "[0, 1, 2, 3]" pp lg st] obtain news where
    n: "snd (snd (foldl (mf_slot this other np) (pp, lg, st) [0, 1, 2, 3])) = news @ st"
    "\<forall>new \<in> set news. mf_entry_ok this other new"
    by auto
  with st show ?thesis by auto
qed

lemma mf_loop_total:
  assumes wt: "wf_nodes this" and wo: "wf_nodes other"
  shows "\<forall>e \<in> set st. mf_entry_ok this other e \<Longrightarrow> mf_measure this other st \<le> f \<Longrightarrow>
         \<exists>res. mf_loop f this other (pp, lg, st) = Some res"
proof (induction f arbitrary: pp lg st)
  case 0
  then have "st = []"
    by (cases st) (simp_all add: mf_measure_def)
  then show ?case by simp
next
  case (Suc f)
  show ?case
  proof (cases st)
    case Nil
    then show ?thesis by simp
  next
    case (Cons np rest)
    let ?s' = "foldl (mf_slot this other np) (pp, lg, rest) [0, 1, 2, 3]"
    obtain pp' lg' st' where s': "?s' = (pp', lg', st')" by (cases ?s') auto
    from Suc.prems(1) Cons have ok: "mf_entry_ok this other np"
      and okr: "\<forall>e \<in> set rest. mf_entry_ok this other e" by auto
    from mf_entries_ok_step[OF wt wo ok okr, of pp lg] s'
    have ok': "\<forall>e \<in> set st'. mf_entry_ok this other e" by simp
    from mf_measure_step[OF wt wo ok, of pp lg rest] s' Suc.prems(2) Cons
    have "mf_measure this other st' \<le> f" by simp
    from Suc.IH[OF ok' this, of pp' lg'] obtain res where
      "mf_loop f this other (pp', lg', st') = Some res" by blast
    with ok s' Cons show ?thesis by (simp add: mf_entry_ok_def)
  qed
qed

lemma getMajorizingFactor_ge:
  assumes "getMajorizingFactor fuel this other = Some pair"
  shows "EPSILON \<le> fst pair \<and> EPSILON \<le> snd pair"
  using assms unfolding getMajorizingFactor_def
  by (rule mf_loop_pos) (simp add: pair_pos_def EPSILON_le_1)

lemma getMajorizingFactor_total:
  assumes wt: "wf_nodes (m_nodes this)" and wo: "wf_nodes (m_nodes other)"
  shows "\<exists>pair. getMajorizingFactor (5 ^ (length (m_nodes this) + length (m_nodes other))) this other
           = Some pair"
  unfolding getMajorizingFactor_def
proof (rule mf_loop_total[OF wt wo])
  let ?e = "\<lparr>nodeIndex = (0, - 1), otherNodeIndex = (0, - 1), nodeFactor = 1, otherNodeFactor = 1,
          nodeLevel = 0, otherNodeLevel = 0\<rparr>"
  show "\<forall>e \<in> set [?e]. mf_entry_ok (m_nodes this) (m_nodes other) e"
    using wf_nodes_length[OF wt] wf_nodes_length[OF wo] by (simp add: mf_entry_ok_def)
  show "mf_measure (m_nodes this) (m_nodes other) [?e]
        \<le> 5 ^ (length (m_nodes this) + length (m_nodes other))"
    by (simp add: mf_measure_def mf_rank_def)
qed

text \<open>
  Claim C10. For well-formed trees \<^verbatim>\<open>getMajorizingFactor\<close> returns (the stated fuel is
  enough), and whatever it returns, with whatever fuel and for whatever trees, both
  components of the pair are at least \<^verbatim>\<open>EPSILON\<close> and so strictly positive; the factor
  \<open>A\<close> of \<^verbatim>\<open>buildAugmented\<close> is then the quotient of the two, by a non-zero divisor,
  and positive.
\<close>

theorem getMajorizingFactor_positive:
  assumes wt: "wf_nodes (m_nodes this)" and wo: "wf_nodes (m_nodes other)"
  shows "(\<exists>pair. getMajorizingFactor (5 ^ (length (m_nodes this) + length (m_nodes other))) this other
            = Some pair) \<and>
         (\<forall>fuel pair. getMajorizingFactor fuel this other = Some pair \<longrightarrow>
            EPSILON \<le> fst pair \<and> EPSILON \<le> snd pair \<and> 0 < fst pair \<and> 0 < snd pair \<and>
            majorizingA pair = snd pair / fst pair \<and> 0 < majorizingA pair)"
proof -
  have "EPSILON \<le> fst pair \<and> EPSILON \<le> snd pair \<and> 0 < fst pair \<and> 0 < snd pair \<and>
        majorizingA pair = snd pair / fst pair \<and> 0 < majorizingA pair"
    if "getMajorizingFactor fuel this other = Some pair" for fuel pair
  proof -
    from getMajorizingFactor_ge[OF that] have g: "EPSILON \<le> fst pair" "EPSILON \<le> snd pair"
      by auto
    with EPSILON_pos have p: "0 < fst pair" "0 < snd pair" by linarith+
    from g have a: "majorizingA pair = snd pair / fst pair" by (simp add: majorizingA_def)
    with p have "0 < majorizingA pair" by simp
    with g p a show ?thesis by simp
  qed
  with getMajorizingFactor_total[OF wt wo] show ?thesis by blast
qed

theorem getMajorizingFactor_positive_witness:
  "wf_nodes (m_nodes treeRefined) \<and> wf_nodes (m_nodes treeFlat) \<and>
   getMajorizingFactor 125 treeRefined treeFlat = Some (1, 1) \<and>
   0 < majorizingA (1, 1)"
proof -
  have e: "getMajorizingFactor 125 treeRefined treeFlat = Some (1, 1)"
    by code_simp
  from getMajorizingFactor_positive[OF wf_treeRefined wf_treeFlat] e
  have "0 < majorizingA (1, 1)" by blast
  with wf_treeRefined wf_treeFlat e show ?thesis by simp
qed



text \<open>
  Claim C1 as stated fails in two ways. Where a leaf of the current tree has pdf 0, the
  pdf is floored to \<^verbatim>\<open>EPSILON\<close> and the factor \<open>1 / EPSILON\<close> does not majorize. Where
  the current tree is refined below a leaf of the previous one, the factor is taken at
  the coarser level, here 1, and does not majorize at the finer leaves.
\<close>

theorem majorizing_factor_counterexample:
  "getMajorizingFactor 25 treeHole treeFlat = Some (EPSILON, 1) \<and>
   validateMajorizingFactor 25 treeHole treeFlat (1 / EPSILON) = Some False \<and>
   getMajorizingFactor 25 treeRefined treeFlat = Some (1, 1) \<and>
   validateMajorizingFactor 25 treeRefined treeFlat (1 / 1) = Some False"
  by code_simp


lemma in_0123: "i < 4 \<longleftrightarrow> i \<in> set [0, 1, 2, 3::nat]"
  by auto

lemma same_shape_refined: "same_shape (m_nodes treeRefined) (m_nodes treeRefinedEven)"
  by (simp add: same_shape_def treeRefined_def treeRefinedEven_def)

subsection \<open>Replay of retained paths\<close>

text \<open>
  One iteration of the loop of \<^verbatim>\<open>rejectAugmentHybrid\<close> writes path \<open>i\<close> only, so the
  pass leaves the paths from \<^verbatim>\<open>m_augmentedStartPos\<close> on as they are.
\<close>

lemma rejectAugment_path_frame:
  "rejectAugment_path env s i = s' \<Longrightarrow>
     length (fst s') = length (fst s) \<and> (\<forall>k. k \<noteq> i \<longrightarrow> fst s' ! k = fst s ! k)"
  by (auto simp: rejectAugment_path_def Let_def split: prod.splits if_splits)

lemma rejectAugment_fold_frame:
  "length (fst (foldl (rejectAugment_path env) s [0 ..< n])) = length (fst s) \<and>
   (\<forall>k. n \<le> k \<longrightarrow> fst (foldl (rejectAugment_path env) s [0 ..< n]) ! k = fst s ! k)"
proof (induction n)
  case 0
  show ?case by simp
next
  case (Suc n)
  let ?mid = "foldl (rejectAugment_path env) s [0 ..< n]"
  have step: "length (fst (rejectAugment_path env ?mid n)) = length (fst ?mid) \<and>
              (\<forall>k. k \<noteq> n \<longrightarrow> fst (rejectAugment_path env ?mid n) ! k = fst ?mid ! k)"
    using rejectAugment_path_frame [of env ?mid n] by simp
  show ?case using Suc step by simp
qed

lemma rejectAugmentHybrid_frame:
  assumes "rejectAugmentHybrid env m_augmentedStartPos s = Some s'"
    and "m_augmentedStartPos \<le> k"
  shows "fst s' ! k = fst s ! k" and "length (fst s') = length (fst s)"
  using assms rejectAugment_fold_frame [of env s m_augmentedStartPos]
  by (auto simp: rejectAugmentHybrid_def split: if_splits)

text \<open>
  Claim C3. Both the reject+augment and the reweight+augment replay leave every
  retained path with index at or beyond \<^verbatim>\<open>m_augmentedStartPos\<close> unchanged.
  \<^verbatim>\<open>rejectAugmentHybrid\<close> does (lemma \<open>rejectAugmentHybrid_frame\<close>), but the loop of
  \<^verbatim>\<open>reweightAugmentHybrid\<close> is bounded by \<^verbatim>\<open>m_samplePaths->size()\<close> and never reads
  \<^verbatim>\<open>m_augmentedStartPos\<close>: with two active paths and \<^verbatim>\<open>m_augmentedStartPos = 1\<close> it
  rewrites \<^verbatim>\<open>woPdf\<close> and \<^verbatim>\<open>sc\<close> of the vertex of path 1, which
  \<^verbatim>\<open>rejectAugmentHybrid\<close> leaves as it is on the same buffer.
\<close>

theorem reweightAugmentHybrid_beyond_start:
  "fst (reweightAugmentHybrid exampleEnv ([examplePath, examplePath], (), samplerQuarter)) ! 1
     = examplePath\<lparr>rp_path := [exampleVertex\<lparr>rv_woPdf := 1 / 2, rv_sc := 1 / 2\<rparr>]\<rparr> \<and>
   fst (reweightAugmentHybrid exampleEnv ([examplePath, examplePath], (), samplerQuarter)) ! 1
     \<noteq> examplePath \<and>
   map_option (\<lambda>s. fst s ! 1)
     (rejectAugmentHybrid exampleEnv 1 ([examplePath, examplePath], (), samplerQuarter))
     = Some examplePath"
  by (simp add: reweightAugmentHybrid_def reweightAugment_path_def rejectAugmentHybrid_def
      rejectAugment_path_def exampleEnv_def examplePath_def exampleVertex_def EPSILON_def
      roulette_def make_vertex_def spectrum_div_def spectrum_mul_def spectrum_scale_def
      spectrum_max_def deactivate_def samplerQuarter_def next1D_def Let_def upt_rec)

section \<open>Verification of \<^verbatim>\<open>computeRequiredSamples\<close> and \<^verbatim>\<open>STree::subdivide\<close>\<close>

text \<open>
  Claim C5, as amended. \<^verbatim>\<open>computeRequiredSamples\<close> first tests \<^verbatim>\<open>B < EPSILON\<close>: then it
  sets \<^verbatim>\<open>req_augmented_samples\<close> to 0 and draws nothing from the sampler. Otherwise,
  with \<open>req = B * weighted_previous_samples\<close> non-negative and below \<open>2 ^ 31\<close> (where the
  conversions are defined), it sets it to \<open>floor req\<close>, plus one exactly when the draw is
  below \<open>req - floor req\<close>, and consumes one draw.
\<close>

theorem computeRequiredSamples_guarded:
  "(B w < EPSILON \<longrightarrow>
      computeRequiredSamples w sampler = Some (w\<lparr>req_augmented_samples := 0\<rparr>, sampler)) \<and>
   (EPSILON \<le> B w \<and> 0 \<le> B w * weighted_previous_samples w \<and>
    B w * weighted_previous_samples w < 2 ^ 31 \<longrightarrow>
      computeRequiredSamples w sampler =
        Some (w\<lparr>req_augmented_samples :=
                   nat \<lfloor>B w * weighted_previous_samples w\<rfloor> +
                   (if s_draws sampler (s_pos sampler) <
                       B w * weighted_previous_samples w - of_int \<lfloor>B w * weighted_previous_samples w\<rfloor>
                    then 1 else 0)\<rparr>,
              sampler\<lparr>s_pos := s_pos sampler + 1\<rparr>))"
proof (intro conjI impI)
  assume "B w < EPSILON"
  then show "computeRequiredSamples w sampler = Some (w\<lparr>req_augmented_samples := 0\<rparr>, sampler)"
    by (simp add: computeRequiredSamples_def)
next
  let ?req = "B w * weighted_previous_samples w"
  assume a: "EPSILON \<le> B w \<and> 0 \<le> ?req \<and> ?req < 2 ^ 31"
  then have nb: "\<not> B w < EPSILON" and r0: "0 \<le> ?req" and r1: "?req < 2 ^ 31" by auto
  have t: "trunc_real ?req = \<lfloor>?req\<rfloor>" using r0 by (simp add: trunc_real_def)
  have f0: "0 \<le> \<lfloor>?req\<rfloor>" using r0 by simp
  have f1: "\<lfloor>?req\<rfloor> < 2 ^ 31" using r1 by (simp add: floor_less_iff)
  have i: "float_to_int ?req = Some \<lfloor>?req\<rfloor>"
    using t f0 f1 by (simp add: float_to_int_def)
  have "(2::int) ^ 31 < 2 ^ 64" by simp
  with f1 have f2: "\<lfloor>?req\<rfloor> < 2 ^ 64" by linarith
  have u: "float_to_uint64 ?req = Some (nat \<lfloor>?req\<rfloor>)"
    using t f0 f2 by (simp add: float_to_uint64_def)
  have "nat \<lfloor>?req\<rfloor> + 1 < 2 ^ 64"
  proof -
    have "int (nat \<lfloor>?req\<rfloor> + 1) = \<lfloor>?req\<rfloor> + 1" using f0 by simp
    also have "\<dots> < 2 ^ 64" using f1 by simp
    finally show ?thesis by (metis of_nat_less_iff of_nat_numeral of_nat_power)
  qed
  then have m: "(nat \<lfloor>?req\<rfloor> + 1) mod 2 ^ 64 = nat \<lfloor>?req\<rfloor> + 1" by simp
  show "computeRequiredSamples w sampler =
        Some (w\<lparr>req_augmented_samples :=
                   nat \<lfloor>?req\<rfloor> + (if s_draws sampler (s_pos sampler) < ?req - of_int \<lfloor>?req\<rfloor> then 1 else 0)\<rparr>,
              sampler\<lparr>s_pos := s_pos sampler + 1\<rparr>)"
    using nb i u m by (simp add: computeRequiredSamples_def Let_def next1D_def)
qed

theorem computeRequiredSamples_guarded_witness:
  "B wrapperSmallB < EPSILON \<and>
   computeRequiredSamples wrapperSmallB samplerQuarter =
     Some (wrapperSmallB\<lparr>req_augmented_samples := 0\<rparr>, samplerQuarter) \<and>
   EPSILON \<le> B wrapperHalfB \<and>
   0 \<le> B wrapperHalfB * weighted_previous_samples wrapperHalfB \<and>
   B wrapperHalfB * weighted_previous_samples wrapperHalfB < 2 ^ 31 \<and>
   computeRequiredSamples wrapperHalfB samplerQuarter =
     Some (wrapperHalfB\<lparr>req_augmented_samples := 3\<rparr>, samplerQuarter\<lparr>s_pos := 1\<rparr>)"
proof -
  have s: "B wrapperSmallB < EPSILON" by (simp add: wrapperSmallB_def EPSILON_def)
  have h: "EPSILON \<le> B wrapperHalfB" by (simp add: wrapperHalfB_def EPSILON_def)
  have r: "B wrapperHalfB * weighted_previous_samples wrapperHalfB = 5 / 2"
    by (simp add: wrapperHalfB_def)
  have f: "\<lfloor>5 / 2 :: real\<rfloor> = 2" by linarith
  have d: "s_draws samplerQuarter 0 = 1 / 4" "s_pos samplerQuarter = 0"
    by (simp_all add: samplerQuarter_def)
  from computeRequiredSamples_guarded[of wrapperSmallB samplerQuarter] s
  have 1: "computeRequiredSamples wrapperSmallB samplerQuarter =
     Some (wrapperSmallB\<lparr>req_augmented_samples := 0\<rparr>, samplerQuarter)" by blast
  from computeRequiredSamples_guarded[of wrapperHalfB samplerQuarter] h
  have 2: "computeRequiredSamples wrapperHalfB samplerQuarter =
     Some (wrapperHalfB\<lparr>req_augmented_samples := 3\<rparr>, samplerQuarter\<lparr>s_pos := 1\<rparr>)"
    by (simp add: r f d numeral_3_eq_3)
  from s h 1 2 show ?thesis by (simp add: r)
qed

text \<open>
  Claim C5 as stated fails where \<open>0 < B < EPSILON\<close>: with \<open>B = 1 / 200000\<close> and
  \<open>weighted_previous_samples = 1000000\<close> the floor of \<open>req\<close> is 5, and the code sets 0.
\<close>

theorem computeRequiredSamples_floor_counterexample:
  "\<lfloor>B wrapperSmallB * weighted_previous_samples wrapperSmallB\<rfloor> = 5 \<and>
   computeRequiredSamples wrapperSmallB samplerQuarter =
     Some (wrapperSmallB\<lparr>req_augmented_samples := 0\<rparr>, samplerQuarter)"
  by (simp add: computeRequiredSamples_def wrapperSmallB_def EPSILON_def)

lemma subdivide_child_0:
  assumes k: "k < length nodes" and c: "st_children (nodes ! k) = [a, b]"
  shows "subdivide_child k (nodes @ [STreeNode_new, STreeNode_new]) 0 =
         (nodes @ [child_of (nodes ! k), STreeNode_new])[k := (nodes ! k)\<lparr>st_children := [length nodes, b]\<rparr>]"
  using k c
  by (simp add: subdivide_child_def Let_def nth_append list_update_append child_of_def halved_def
      nth_list_update)

lemma subdivide_child_1:
  assumes k: "k < length nodes"
  shows "subdivide_child k
           ((nodes @ [c0, STreeNode_new])[k := (nodes ! k)\<lparr>st_children := [length nodes, b]\<rparr>]) 1 =
         (nodes @ [c0, child_of (nodes ! k)])
           [k := (nodes ! k)\<lparr>st_children := [length nodes, length nodes + 1]\<rparr>]"
  using k
  by (simp add: subdivide_child_def Let_def nth_append list_update_append child_of_def halved_def
      nth_list_update)

lemma subdivide_result:
  assumes k: "k < length nodes" and c: "st_children (nodes ! k) = [a, b]"
    and cap: "length nodes + 2 \<le> UINT32_MAX"
  shows "subdivide k nodes =
         Some ((nodes @ [child_of (nodes ! k), child_of (nodes ! k)])
                 [k := parent_of (nodes ! k) (length nodes)])"
proof -
  have "foldl (subdivide_child k) (nodes @ [STreeNode_new, STreeNode_new]) [0, 1] =
        (nodes @ [child_of (nodes ! k), child_of (nodes ! k)])
           [k := (nodes ! k)\<lparr>st_children := [length nodes, length nodes + 1]\<rparr>]"
    using subdivide_child_0[OF k c] subdivide_child_1[OF k] by simp
  then show ?thesis
    using k cap by (simp add: subdivide_def Let_def parent_of_def)
qed

lemma subdivide_overflow:
  "length nodes + 2 > UINT32_MAX \<Longrightarrow>
   subdivide k nodes = Some (nodes @ [STreeNode_new, STreeNode_new])"
  by (simp add: subdivide_def Let_def)

lemma axis_cycles_alt:
  "axis_cycles nodes k \<longleftrightarrow>
     (\<forall>i < 2. st_children (nodes ! k) ! i < length nodes \<and>
        st_axis (nodes ! (st_children (nodes ! k) ! i)) = (st_axis (nodes ! k) + 1) mod 3)"
  by (simp add: axis_cycles_def Ball_def)

lemma stree_inv_clear: "stree_inv STree_clear"
  by (simp add: stree_inv_def STree_clear_def STreeNode_new_def)

lemma axis_cycles_mono:
  assumes "axis_cycles nodes k" and "k < length nodes" and "length nodes \<le> length nodes'"
    and ax: "\<And>j. j < length nodes \<Longrightarrow> st_axis (nodes' ! j) = st_axis (nodes ! j)"
    and ch: "st_children (nodes' ! k) = st_children (nodes ! k)"
  shows "axis_cycles nodes' k"
  unfolding axis_cycles_alt
proof (intro allI impI)
  fix i :: nat assume i: "i < 2"
  from assms(1) i have c: "st_children (nodes ! k) ! i < length nodes"
    and a: "st_axis (nodes ! (st_children (nodes ! k) ! i)) = (st_axis (nodes ! k) + 1) mod 3"
    by (auto simp: axis_cycles_alt)
  show "st_children (nodes' ! k) ! i < length nodes' \<and>
        st_axis (nodes' ! (st_children (nodes' ! k) ! i)) = (st_axis (nodes' ! k) + 1) mod 3"
    using c a assms(2,3) ax[OF c] ax[OF assms(2)] ch by simp
qed

lemma stree_inv_step:
  assumes inv: "stree_inv nodes"
    and len: "length nodes \<le> length nodes'"
    and ax: "\<And>j. j < length nodes \<Longrightarrow> st_axis (nodes' ! j) = st_axis (nodes ! j)"
    and old: "\<And>j. j < length nodes \<Longrightarrow> \<not> st_isLeaf (nodes ! j) \<Longrightarrow> nodes' ! j = nodes ! j"
    and new: "\<And>j. j < length nodes' \<Longrightarrow> (j < length nodes \<Longrightarrow> st_isLeaf (nodes ! j)) \<Longrightarrow>
               length (st_children (nodes' ! j)) = 2 \<and>
               (\<not> st_isLeaf (nodes' ! j) \<longrightarrow>
                  axis_cycles nodes' j \<and> st_dTree (nodes' ! j) = DTreeWrapper_new)"
  shows "stree_inv nodes'"
  unfolding stree_inv_def
proof (intro allI impI)
  fix j assume j: "j < length nodes'"
  show "length (st_children (nodes' ! j)) = 2 \<and>
        (\<not> st_isLeaf (nodes' ! j) \<longrightarrow>
           axis_cycles nodes' j \<and> st_dTree (nodes' ! j) = DTreeWrapper_new)"
  proof (cases "j < length nodes \<and> \<not> st_isLeaf (nodes ! j)")
    case True
    then have jl: "j < length nodes" and nl: "\<not> st_isLeaf (nodes ! j)" by auto
    from old[OF jl nl] have e: "nodes' ! j = nodes ! j" .
    from inv jl nl have l2: "length (st_children (nodes ! j)) = 2"
      and ac: "axis_cycles nodes j" and d: "st_dTree (nodes ! j) = DTreeWrapper_new"
      by (auto simp: stree_inv_def)
    have "axis_cycles nodes' j"
      using axis_cycles_mono[OF ac jl len ax] e by simp
    with e l2 d show ?thesis by simp
  next
    case False
    then show ?thesis using new[OF j] by blast
  qed
qed

lemma stree_inv_append:
  assumes "stree_inv nodes"
  shows "stree_inv (nodes @ [STreeNode_new, STreeNode_new])"
proof (rule stree_inv_step[OF assms])
  fix j assume j: "j < length (nodes @ [STreeNode_new, STreeNode_new])"
    and l: "j < length nodes \<Longrightarrow> st_isLeaf (nodes ! j)"
  show "length (st_children ((nodes @ [STreeNode_new, STreeNode_new]) ! j)) = 2 \<and>
        (\<not> st_isLeaf ((nodes @ [STreeNode_new, STreeNode_new]) ! j) \<longrightarrow>
           axis_cycles (nodes @ [STreeNode_new, STreeNode_new]) j \<and>
           st_dTree ((nodes @ [STreeNode_new, STreeNode_new]) ! j) = DTreeWrapper_new)"
  proof (cases "j < length nodes")
    case True
    with l assms show ?thesis by (simp add: nth_append stree_inv_def)
  next
    case False
    with j have "j = length nodes \<or> j = Suc (length nodes)" by auto
    then show ?thesis
      by (auto simp: nth_append STreeNode_new_def)
  qed
qed (simp_all add: nth_append)

lemma child_of_simps [simp]:
  "st_axis (child_of c) = (st_axis c + 1) mod 3"
  "st_isLeaf (child_of c)"
  "st_children (child_of c) = [0, 0]"
  "st_dTree (child_of c) = halved (st_dTree c)"
  by (simp_all add: child_of_def STreeNode_new_def)

lemma parent_of_simps [simp]:
  "st_axis (parent_of c L) = st_axis c"
  "\<not> st_isLeaf (parent_of c L)"
  "st_children (parent_of c L) = [L, L + 1]"
  "st_dTree (parent_of c L) = DTreeWrapper_new"
  by (simp_all add: parent_of_def)

lemma axis_cycles_subdivided:
  assumes k: "k < length nodes"
  shows "axis_cycles ((nodes @ [child_of (nodes ! k), child_of (nodes ! k)])
                        [k := parent_of (nodes ! k) (length nodes)]) k"
  unfolding axis_cycles_alt
proof (intro allI impI)
  fix i :: nat assume "i < 2"
  then have "i = 0 \<or> i = 1" by auto
  then show "st_children ((nodes @ [child_of (nodes ! k), child_of (nodes ! k)])
                        [k := parent_of (nodes ! k) (length nodes)] ! k) ! i
        < length ((nodes @ [child_of (nodes ! k), child_of (nodes ! k)])
                        [k := parent_of (nodes ! k) (length nodes)]) \<and>
      st_axis ((nodes @ [child_of (nodes ! k), child_of (nodes ! k)])
                        [k := parent_of (nodes ! k) (length nodes)] !
             (st_children ((nodes @ [child_of (nodes ! k), child_of (nodes ! k)])
                        [k := parent_of (nodes ! k) (length nodes)] ! k) ! i)) =
      (st_axis ((nodes @ [child_of (nodes ! k), child_of (nodes ! k)])
                        [k := parent_of (nodes ! k) (length nodes)] ! k) + 1) mod 3"
    using k by (auto simp: nth_append nth_list_update)
qed

lemma stree_inv_subdivided:
  assumes inv: "stree_inv nodes" and k: "k < length nodes" and leaf: "st_isLeaf (nodes ! k)"
  shows "stree_inv ((nodes @ [child_of (nodes ! k), child_of (nodes ! k)])
                        [k := parent_of (nodes ! k) (length nodes)])"
    (is "stree_inv ?n'")
proof (rule stree_inv_step[OF inv])
  show "length nodes \<le> length ?n'" by simp
next
  fix j assume "j < length nodes"
  then show "st_axis (?n' ! j) = st_axis (nodes ! j)"
    by (cases "j = k") (simp_all add: nth_append)
next
  fix j assume "j < length nodes" "\<not> st_isLeaf (nodes ! j)"
  with leaf have "j \<noteq> k" by auto
  with \<open>j < length nodes\<close> show "?n' ! j = nodes ! j" by (simp add: nth_append)
next
  fix j assume j: "j < length ?n'" and l: "j < length nodes \<Longrightarrow> st_isLeaf (nodes ! j)"
  show "length (st_children (?n' ! j)) = 2 \<and>
        (\<not> st_isLeaf (?n' ! j) \<longrightarrow> axis_cycles ?n' j \<and> st_dTree (?n' ! j) = DTreeWrapper_new)"
  proof (cases "j = k")
    case True
    with k axis_cycles_subdivided[OF k] show ?thesis by simp
  next
    case False
    show ?thesis
    proof (cases "j < length nodes")
      case True
      with False l inv show ?thesis by (simp add: nth_append stree_inv_def)
    next
      case False
      with j have "j = length nodes \<or> j = Suc (length nodes)" by auto
      with k show ?thesis by (auto simp: nth_append)
    qed
  qed
qed

lemma stree_inv_wrapper:
  assumes inv: "stree_inv nodes" and k: "k < length nodes" and leaf: "st_isLeaf (nodes ! k)"
  shows "stree_inv (nodes[k := (nodes ! k)\<lparr>st_dTree := w\<rparr>])"
proof (rule stree_inv_step[OF inv])
  fix j assume "j < length nodes" "\<not> st_isLeaf (nodes ! j)"
  with leaf have "j \<noteq> k" by auto
  then show "nodes[k := (nodes ! k)\<lparr>st_dTree := w\<rparr>] ! j = nodes ! j" by simp
next
  fix j assume j: "j < length (nodes[k := (nodes ! k)\<lparr>st_dTree := w\<rparr>])"
    and l: "j < length nodes \<Longrightarrow> st_isLeaf (nodes ! j)"
  then have jl: "j < length nodes" and lf: "st_isLeaf (nodes ! j)" by auto
  from inv jl have "length (st_children (nodes ! j)) = 2" by (simp add: stree_inv_def)
  with jl lf show "length (st_children (nodes[k := (nodes ! k)\<lparr>st_dTree := w\<rparr>] ! j)) = 2 \<and>
        (\<not> st_isLeaf (nodes[k := (nodes ! k)\<lparr>st_dTree := w\<rparr>] ! j) \<longrightarrow>
           axis_cycles (nodes[k := (nodes ! k)\<lparr>st_dTree := w\<rparr>]) j \<and>
           st_dTree (nodes[k := (nodes ! k)\<lparr>st_dTree := w\<rparr>] ! j) = DTreeWrapper_new)"
    by (cases "j = k") simp_all
next
  fix j assume "j < length nodes"
  then show "st_axis (nodes[k := (nodes ! k)\<lparr>st_dTree := w\<rparr>] ! j) = st_axis (nodes ! j)"
    by (cases "j = k") simp_all
qed simp

lemma children_pair: "length (xs :: nat list) = 2 \<Longrightarrow> \<exists>a b. xs = [a, b]"
  by (cases xs; cases "tl xs") auto

lemma reachable_inv: "reachable nodes \<Longrightarrow> stree_inv nodes"
proof (induction rule: reachable.induct)
  case reach_clear
  show ?case by (rule stree_inv_clear)
next
  case (reach_subdivide nodes k nodes')
  from reach_subdivide.IH reach_subdivide.hyps(2)
  have "length (st_children (nodes ! k)) = 2" by (simp add: stree_inv_def)
  then obtain a b where c: "st_children (nodes ! k) = [a, b]" using children_pair by blast
  show ?case
  proof (cases "length nodes + 2 \<le> UINT32_MAX")
    case True
    from subdivide_result[OF reach_subdivide.hyps(2) c True] reach_subdivide.hyps(4)
    have "nodes' = (nodes @ [child_of (nodes ! k), child_of (nodes ! k)])
                        [k := parent_of (nodes ! k) (length nodes)]" by simp
    then show ?thesis
      using stree_inv_subdivided[OF reach_subdivide.IH reach_subdivide.hyps(2,3)] by simp
  next
    case False
    then have "length nodes + 2 > UINT32_MAX" by simp
    from subdivide_overflow[OF this, of k] reach_subdivide.hyps(4)
    have "nodes' = nodes @ [STreeNode_new, STreeNode_new]" by simp
    then show ?thesis using stree_inv_append[OF reach_subdivide.IH] by simp
  qed
next
  case (reach_wrapper nodes k w)
  then show ?case using stree_inv_wrapper by blast
qed

lemma halved_weight:
  "statisticalWeightBuilding (halved w) = statisticalWeightBuilding w / 2"
  by (simp add: halved_def statisticalWeightBuilding_def setStatisticalWeightBuilding_def)

text \<open>
  Claim C7. In every reachable STree, every non-leaf node has two children in the
  vector whose axis is the node's axis plus one modulo 3, and its own \<^verbatim>\<open>DTreeWrapper\<close>
  is the cleared one. Subdividing a leaf \<open>k\<close> of a reachable STree (within the capacity
  of the vector) returns a reachable STree in which \<open>k\<close> is such a node: its children are
  the two new leaves, each holds the \<^verbatim>\<open>DTreeWrapper\<close> of \<open>k\<close> with the building
  statistical weight halved, and the two weights add up to the weight \<open>k\<close> had.
\<close>

theorem STree_subdivide_children:
  assumes r: "reachable nodes"
  shows "(\<forall>k < length nodes. \<not> st_isLeaf (nodes ! k) \<longrightarrow>
            axis_cycles nodes k \<and> st_dTree (nodes ! k) = DTreeWrapper_new) \<and>
         (\<forall>k. k < length nodes \<and> st_isLeaf (nodes ! k) \<and> length nodes + 2 \<le> UINT32_MAX \<longrightarrow>
            (\<exists>nodes'. subdivide k nodes = Some nodes' \<and> reachable nodes' \<and>
               \<not> st_isLeaf (nodes' ! k) \<and>
               st_children (nodes' ! k) = [length nodes, length nodes + 1] \<and>
               axis_cycles nodes' k \<and>
               st_dTree (nodes' ! k) = DTreeWrapper_new \<and>
               (\<forall>c \<in> set (st_children (nodes' ! k)).
                  st_isLeaf (nodes' ! c) \<and>
                  st_dTree (nodes' ! c) =
                    setStatisticalWeightBuilding (st_dTree (nodes ! k))
                      (statisticalWeightBuilding (st_dTree (nodes ! k)) / 2)) \<and>
               statisticalWeightBuilding (st_dTree (nodes' ! length nodes)) +
               statisticalWeightBuilding (st_dTree (nodes' ! (length nodes + 1))) =
                 statisticalWeightBuilding (st_dTree (nodes ! k))))"
proof -
  have inv: "axis_cycles nodes k \<and> st_dTree (nodes ! k) = DTreeWrapper_new"
    if "k < length nodes" "\<not> st_isLeaf (nodes ! k)" for k
    using reachable_inv[OF r] that by (simp add: stree_inv_def)
  have post: "\<exists>nodes'. subdivide k nodes = Some nodes' \<and> reachable nodes' \<and>
               \<not> st_isLeaf (nodes' ! k) \<and>
               st_children (nodes' ! k) = [length nodes, length nodes + 1] \<and>
               axis_cycles nodes' k \<and>
               st_dTree (nodes' ! k) = DTreeWrapper_new \<and>
               (\<forall>c \<in> set (st_children (nodes' ! k)).
                  st_isLeaf (nodes' ! c) \<and>
                  st_dTree (nodes' ! c) =
                    setStatisticalWeightBuilding (st_dTree (nodes ! k))
                      (statisticalWeightBuilding (st_dTree (nodes ! k)) / 2)) \<and>
               statisticalWeightBuilding (st_dTree (nodes' ! length nodes)) +
               statisticalWeightBuilding (st_dTree (nodes' ! (length nodes + 1))) =
                 statisticalWeightBuilding (st_dTree (nodes ! k))"
    if a: "k < length nodes \<and> st_isLeaf (nodes ! k) \<and> length nodes + 2 \<le> UINT32_MAX" for k
  proof -
    from a have k: "k < length nodes" and leaf: "st_isLeaf (nodes ! k)"
      and cap: "length nodes + 2 \<le> UINT32_MAX" by auto
    let ?n' = "(nodes @ [child_of (nodes ! k), child_of (nodes ! k)])
                          [k := parent_of (nodes ! k) (length nodes)]"
    from reachable_inv[OF r] k have "length (st_children (nodes ! k)) = 2"
      by (simp add: stree_inv_def)
    then obtain a b where c: "st_children (nodes ! k) = [a, b]" using children_pair by blast
    have s: "subdivide k nodes = Some ?n'" using subdivide_result[OF k c cap] .
    have r': "reachable ?n'" using reachable.reach_subdivide[OF r k leaf s] .
    have 1: "\<not> st_isLeaf (?n' ! k)" using k by simp
    have 2: "st_children (?n' ! k) = [length nodes, length nodes + 1]" using k by simp
    have 3: "axis_cycles ?n' k" using axis_cycles_subdivided[OF k] .
    have 4: "st_dTree (?n' ! k) = DTreeWrapper_new" using k by simp
    have n0: "?n' ! length nodes = child_of (nodes ! k)" using k by (simp add: nth_append)
    have n1: "?n' ! (length nodes + 1) = child_of (nodes ! k)" using k by (simp add: nth_append)
    have 5: "\<forall>c \<in> set (st_children (?n' ! k)).
               st_isLeaf (?n' ! c) \<and>
               st_dTree (?n' ! c) =
                 setStatisticalWeightBuilding (st_dTree (nodes ! k))
                   (statisticalWeightBuilding (st_dTree (nodes ! k)) / 2)"
      unfolding 2 using n0 n1 by (simp add: halved_def)
    have 6: "statisticalWeightBuilding (st_dTree (?n' ! length nodes)) +
             statisticalWeightBuilding (st_dTree (?n' ! (length nodes + 1))) =
             statisticalWeightBuilding (st_dTree (nodes ! k))"
      unfolding n0 n1 by (simp add: halved_weight)
    from s r' 1 2 3 4 5 6 show ?thesis by blast
  qed
  from inv post show ?thesis by blast
qed

lemma reachable_exampleSTree: "reachable exampleSTree"
proof -
  have "reachable (STree_clear[0 := (STree_clear ! 0)\<lparr>st_dTree := setStatisticalWeightBuilding DTreeWrapper_new 6\<rparr>])"
    by (rule reachable.reach_wrapper[OF reachable.reach_clear])
       (simp_all add: STree_clear_def STreeNode_new_def)
  then show ?thesis by (simp add: exampleSTree_def STree_clear_def)
qed

theorem STree_subdivide_children_witness:
  "reachable exampleSTree \<and> st_isLeaf (exampleSTree ! 0) \<and>
   length exampleSTree + 2 \<le> UINT32_MAX \<and>
   (case subdivide 0 exampleSTree of
      None \<Rightarrow> False
    | Some nodes' \<Rightarrow>
        reachable nodes' \<and> \<not> st_isLeaf (nodes' ! 0) \<and> st_children (nodes' ! 0) = [1, 2] \<and>
        axis_cycles nodes' 0 \<and> st_axis (nodes' ! 1) = 1 \<and> st_axis (nodes' ! 2) = 1 \<and>
        st_dTree (nodes' ! 0) = DTreeWrapper_new \<and>
        statisticalWeightBuilding (st_dTree (nodes' ! 1)) = 3 \<and>
        statisticalWeightBuilding (st_dTree (nodes' ! 2)) = 3)"
proof -
  have l: "length exampleSTree = 1" by (simp add: exampleSTree_def)
  have leaf: "st_isLeaf (exampleSTree ! 0)" by (simp add: exampleSTree_def STreeNode_new_def)
  have cap: "length exampleSTree + 2 \<le> UINT32_MAX" by (simp add: l UINT32_MAX_def)
  have w: "statisticalWeightBuilding (st_dTree (exampleSTree ! 0)) = 6"
    by (simp add: exampleSTree_def statisticalWeightBuilding_def setStatisticalWeightBuilding_def)
  have ax: "st_axis (exampleSTree ! 0) = 0" by (simp add: exampleSTree_def STreeNode_new_def)
  from STree_subdivide_children[OF reachable_exampleSTree] l leaf cap
  obtain nodes' where s: "subdivide 0 exampleSTree = Some nodes'" and r: "reachable nodes'"
    and nl: "\<not> st_isLeaf (nodes' ! 0)" and ch: "st_children (nodes' ! 0) = [1, 2]"
    and ac: "axis_cycles nodes' 0" and d: "st_dTree (nodes' ! 0) = DTreeWrapper_new"
    and c: "\<forall>c \<in> set (st_children (nodes' ! 0)).
                  st_isLeaf (nodes' ! c) \<and>
                  st_dTree (nodes' ! c) =
                    setStatisticalWeightBuilding (st_dTree (exampleSTree ! 0))
                      (statisticalWeightBuilding (st_dTree (exampleSTree ! 0)) / 2)"
    by (auto simp: numeral_2_eq_2)
  from c ch w have w1: "statisticalWeightBuilding (st_dTree (nodes' ! 1)) = 3"
    and w2: "statisticalWeightBuilding (st_dTree (nodes' ! 2)) = 3"
    by (simp_all add: statisticalWeightBuilding_def setStatisticalWeightBuilding_def)
  from ac ch have "st_axis (nodes' ! 1) = (st_axis (nodes' ! 0) + 1) mod 3"
    and "st_axis (nodes' ! 2) = (st_axis (nodes' ! 0) + 1) mod 3"
    by (simp_all add: axis_cycles_alt numeral_2_eq_2 less_Suc_eq all_conj_distrib)
  moreover have "st_axis (nodes' ! 0) = 0"
  proof -
    have "st_children (exampleSTree ! 0) = [0, 0]"
      by (simp add: exampleSTree_def STreeNode_new_def)
    from subdivide_result[OF _ this cap] s l ax show ?thesis by auto
  qed
  ultimately have a1: "st_axis (nodes' ! 1) = 1" and a2: "st_axis (nodes' ! 2) = 1" by simp_all
  from reachable_exampleSTree leaf cap s r nl ch ac a1 a2 d w1 w2 show ?thesis by simp
qed

section \<open>The augmented distribution\<close>

subsection \<open>The factor covers every joint leaf\<close>





lemma mf_joint_entry_simps [simp]:
  "mf_joined (mf_joint_entry this other np k1 k2 i) k1' k2' \<longleftrightarrow>
     k1' = child (this ! k1) i \<and> k2' = child (other ! k2) i"
  "nodeFactor (mf_joint_entry this other np k1 k2 i) = node_pdf this k1 (nodeFactor np) i"
  "otherNodeFactor (mf_joint_entry this other np k1 k2 i) = node_pdf other k2 (otherNodeFactor np) i"
  by (auto simp: mf_joint_entry_def mf_joined_def)

lemma mf_joined_unique: "mf_joined np k1 k2 \<Longrightarrow> mf_joined np k1' k2' \<Longrightarrow> k1' = k1 \<and> k2' = k2"
  by (simp add: mf_joined_def)


subsection \<open>Normalisation\<close>



lemma joint_internal_children:
  assumes wf: "wf_nodes this" and wfo: "wf_nodes other"
    and k1: "k1 < length this" and k2: "k2 < length other" and i: "i < 4"
    and ji: "joint_internal this other k1 k2 i"
  shows "k1 < child (this ! k1) i" "child (this ! k1) i < length this"
        "k2 < child (other ! k2) i" "child (other ! k2) i < length other"
proof -
  from ji have nl: "\<not> isLeaf (this ! k1) i" "\<not> isLeaf (other ! k2) i"
    by (auto simp: joint_internal_def)
  from wf_nodes_child[OF wf k1 i nl(1)]
  show "k1 < child (this ! k1) i" "child (this ! k1) i < length this" by auto
  from wf_nodes_child[OF wfo k2 i nl(2)]
  show "k2 < child (other ! k2) i" "child (other ! k2) i < length other" by auto
qed






subsection \<open>The loop of \<^verbatim>\<open>buildAugmented\<close> returns\<close>










subsection \<open>The invariant of the loop of \<^verbatim>\<open>buildAugmented\<close>\<close>

text \<open>
  One slot of the node on top of the stack at a time: a joint leaf gets the residual
  pdf, which the factor keeps from being clipped at 0; any other slot gets a new node,
  whose index fits 16 bits.
\<close>

lemma child_setSum [simp]: "child (setSum n i v) j = child n j"
  by (simp add: child_def setSum_def)

lemma children_setSum [simp]: "m_children (setSum n i v) = m_children n"
  by (simp add: setSum_def)

lemma sum_len_setSum [simp]: "length (m_sum (setSum n i v)) = length (m_sum n)"
  by (simp add: setSum_def)

lemma isLeaf_setSum [simp]: "isLeaf (setSum n i v) j = isLeaf n j"
  by (simp add: isLeaf_def)

lemma sum_at_setChild [simp]: "sum_at (setChild n i c) j = sum_at n j"
  by (simp add: sum_at_def setChild_def)

lemma sum_len_setChild [simp]: "length (m_sum (setChild n i c)) = length (m_sum n)"
  by (simp add: setChild_def)

lemma children_len_setChild [simp]: "length (m_children (setChild n i c)) = length (m_children n)"
  by (simp add: setChild_def)
















subsection \<open>\<^verbatim>\<open>build\<close> and \<^verbatim>\<open>computeIntegral\<close> on the augmented tree\<close>












section \<open>Verification of the majorizing factor in rounded arithmetic\<close>

lemma mf_slot_stack_fl:
  assumes wt: "wf_nodes this" and wo: "wf_nodes other" and ok: "mf_entry_ok this other np"
    and i: "i < 4"
  shows "\<exists>news. snd (snd (mf_slot_fl rnd this other np (pp, lg, st) i)) = news @ st \<and> length news \<le> 1 \<and>
           (\<forall>new \<in> set news. mf_entry_ok this other new \<and>
              mf_rank this other new < mf_rank this other np)"
proof -
  let ?a = "fst (nodeIndex np)" and ?b = "fst (otherNodeIndex np)"
  from ok have a: "?a < length this" and b: "?b < length other"
    and sa: "snd (nodeIndex np) < 0" and sb: "snd (otherNodeIndex np) < 0"
    by (auto simp: mf_entry_ok_def)
  have ps: "pair_slot (snd (nodeIndex np)) i = i" "pair_slot (snd (otherNodeIndex np)) i = i"
    using sa sb by (simp_all add: pair_slot_def)
  show ?thesis
  proof (cases "isLeaf (this ! ?a) i \<or> isLeaf (other ! ?b) i")
    case True
    then have "snd (snd (mf_slot_fl rnd this other np (pp, lg, st) i)) = [] @ st"
      by (simp add: mf_slot_fl_def Let_def ps)
    then show ?thesis by (intro exI[of _ "[]"]) simp
  next
    case False
    then have nl: "\<not> isLeaf (this ! ?a) i" "\<not> isLeaf (other ! ?b) i" by auto
    from wf_nodes_child[OF wt a i nl(1)] have ca: "?a < child (this ! ?a) i" "child (this ! ?a) i < length this"
      by auto
    from wf_nodes_child[OF wo b i nl(2)] have cb: "?b < child (other ! ?b) i" "child (other ! ?b) i < length other"
      by auto
    let ?new = "\<lparr>nodeIndex = next_index this (nodeIndex np) i,
             otherNodeIndex = next_index other (otherNodeIndex np) i,
             nodeFactor = slot_pdf_fl rnd (nodeFactor np) (this ! ?a) (pair_denom_fl rnd (this ! ?a) (snd (nodeIndex np))) i,
             otherNodeFactor = slot_pdf_fl rnd (otherNodeFactor np) (other ! ?b) (pair_denom_fl rnd (other ! ?b) (snd (otherNodeIndex np))) i,
             nodeLevel = nodeLevel np + 1, otherNodeLevel = otherNodeLevel np + 1\<rparr>"
    have e: "snd (snd (mf_slot_fl rnd this other np (pp, lg, st) i)) = [?new] @ st"
      using False by (simp add: mf_slot_fl_def Let_def ps)
    have n1: "next_index this (nodeIndex np) i = (child (this ! ?a) i, - 1)"
      and n2: "next_index other (otherNodeIndex np) i = (child (other ! ?b) i, - 1)"
      using nl by (simp_all add: next_index_def)
    have "mf_entry_ok this other ?new"
      using ca cb by (simp add: mf_entry_ok_def n1 n2)
    moreover have "mf_rank this other ?new < mf_rank this other np"
      using ca cb by (simp add: mf_rank_def n1 n2)
    ultimately show ?thesis using e by (intro exI[of _ "[?new]"]) simp
  qed
qed

lemma foldl_mf_slot_stack_fl:
  assumes wt: "wf_nodes this" and wo: "wf_nodes other" and ok: "mf_entry_ok this other np"
  shows "\<forall>i \<in> set is. i < 4 \<Longrightarrow>
         \<exists>news. snd (snd (foldl (mf_slot_fl rnd this other np) (pp, lg, st) is)) = news @ st \<and>
           length news \<le> length is \<and>
           (\<forall>new \<in> set news. mf_entry_ok this other new \<and>
              mf_rank this other new < mf_rank this other np)"
proof (induction "is" arbitrary: pp lg st)
  case Nil
  then show ?case by simp
next
  case (Cons i "is")
  obtain pp1 lg1 st1 where s1: "mf_slot_fl rnd this other np (pp, lg, st) i = (pp1, lg1, st1)"
    by (cases "mf_slot_fl rnd this other np (pp, lg, st) i") auto
  from Cons.prems have i: "i < 4" and rest: "\<forall>i \<in> set is. i < 4" by auto
  from mf_slot_stack_fl[OF wt wo ok i, of rnd pp lg st] s1 obtain n1 where
    n1: "st1 = n1 @ st" "length n1 \<le> 1"
    "\<forall>new \<in> set n1. mf_entry_ok this other new \<and> mf_rank this other new < mf_rank this other np"
    by auto
  from Cons.IH[OF rest, of pp1 lg1 st1] obtain n2 where
    n2: "snd (snd (foldl (mf_slot_fl rnd this other np) (pp1, lg1, st1) is)) = n2 @ st1"
    "length n2 \<le> length is"
    "\<forall>new \<in> set n2. mf_entry_ok this other new \<and> mf_rank this other new < mf_rank this other np"
    by blast
  show ?case
    using s1 n1 n2 by (intro exI[of _ "n2 @ n1"]) auto
qed

lemma mf_measure_step_fl:
  assumes wt: "wf_nodes this" and wo: "wf_nodes other" and ok: "mf_entry_ok this other np"
  shows "mf_measure this other
           (snd (snd (foldl (mf_slot_fl rnd this other np) (pp, lg, st) [0, 1, 2, 3])))
         < mf_measure this other (np # st)"
proof -
  from foldl_mf_slot_stack_fl[OF wt wo ok, of "[0, 1, 2, 3]" rnd pp lg st] obtain news where
    n: "snd (snd (foldl (mf_slot_fl rnd this other np) (pp, lg, st) [0, 1, 2, 3])) = news @ st"
    "length news \<le> 4"
    "\<forall>new \<in> set news. mf_rank this other new < mf_rank this other np"
    by auto
  let ?n = "mf_rank this other np"
  from sum_list_pow_bound[of news "mf_rank this other" ?n] n(3)
  have "mf_measure this other news * 5 \<le> length news * 5 ^ ?n"
    by (simp add: mf_measure_def)
  also have "\<dots> \<le> 4 * 5 ^ ?n" using n(2) by simp
  finally have "mf_measure this other news * 5 \<le> 4 * 5 ^ ?n" .
  moreover have "(0::nat) < 5 ^ ?n" by simp
  ultimately have "mf_measure this other news < 5 ^ ?n" by linarith
  then show ?thesis
    unfolding n(1) by (simp add: mf_measure_def)
qed

lemma mf_entries_ok_step_fl:
  assumes wt: "wf_nodes this" and wo: "wf_nodes other" and ok: "mf_entry_ok this other np"
    and st: "\<forall>e \<in> set st. mf_entry_ok this other e"
  shows "\<forall>e \<in> set (snd (snd (foldl (mf_slot_fl rnd this other np) (pp, lg, st) [0, 1, 2, 3]))).
           mf_entry_ok this other e"
proof -
  from foldl_mf_slot_stack_fl[OF wt wo ok, of "[0, 1, 2, 3]" rnd pp lg st] obtain news where
    n: "snd (snd (foldl (mf_slot_fl rnd this other np) (pp, lg, st) [0, 1, 2, 3])) = news @ st"
    "\<forall>new \<in> set news. mf_entry_ok this other new"
    by auto
  with st show ?thesis by auto
qed

lemma mf_loop_total_fl:
  assumes wt: "wf_nodes this" and wo: "wf_nodes other"
  shows "\<forall>e \<in> set st. mf_entry_ok this other e \<Longrightarrow> mf_measure this other st \<le> f \<Longrightarrow>
         \<exists>res. mf_loop_fl rnd f this other (pp, lg, st) = Some res"
proof (induction f arbitrary: pp lg st)
  case 0
  then have "st = []"
    by (cases st) (simp_all add: mf_measure_def)
  then show ?case by simp
next
  case (Suc f)
  show ?case
  proof (cases st)
    case Nil
    then show ?thesis by simp
  next
    case (Cons np rest)
    let ?s' = "foldl (mf_slot_fl rnd this other np) (pp, lg, rest) [0, 1, 2, 3]"
    obtain pp' lg' st' where s': "?s' = (pp', lg', st')" by (cases ?s') auto
    from Suc.prems(1) Cons have ok: "mf_entry_ok this other np"
      and okr: "\<forall>e \<in> set rest. mf_entry_ok this other e" by auto
    from mf_entries_ok_step_fl[OF wt wo ok okr, of rnd pp lg] s'
    have ok': "\<forall>e \<in> set st'. mf_entry_ok this other e" by simp
    from mf_measure_step_fl[OF wt wo ok, of rnd pp lg rest] s' Suc.prems(2) Cons
    have "mf_measure this other st' \<le> f" by simp
    from Suc.IH[OF ok' this, of pp' lg'] obtain res where
      "mf_loop_fl rnd f this other (pp', lg', st') = Some res" by blast
    with ok s' Cons show ?thesis by (simp add: mf_entry_ok_def)
  qed
qed

lemma mf_slot_joined_fl:
  assumes al: "mf_joined np k1 k2"
  shows "mf_slot_fl rnd this other np (pp, lg, st) i =
     (if \<not> joint_internal this other k1 k2 i then
        (if floored_ratio_fl rnd (node_pdf_fl rnd this k1 (nodeFactor np) i)
                          (node_pdf_fl rnd other k2 (otherNodeFactor np) i) > lg
         then ((max (node_pdf_fl rnd this k1 (nodeFactor np) i) (EPSILON_fl rnd),
                max (node_pdf_fl rnd other k2 (otherNodeFactor np) i) (EPSILON_fl rnd)),
               floored_ratio_fl rnd (node_pdf_fl rnd this k1 (nodeFactor np) i)
                             (node_pdf_fl rnd other k2 (otherNodeFactor np) i), st)
         else (pp, lg, st))
      else (pp, lg, mf_joint_entry_fl rnd this other np k1 k2 i # st))"
proof -
  from al have ni: "nodeIndex np = (k1, - 1)" and oi: "otherNodeIndex np = (k2, - 1)"
    by (auto simp: mf_joined_def)
  show ?thesis
    by (simp add: mf_slot_fl_def Let_def ni oi pair_denom_fl_def pair_slot_def next_index_def
        floored_ratio_fl_def mf_joint_entry_fl_def node_pdf_fl_def joint_internal_def)
qed

lemma floored_ratio_inv_fl:
  "mf_inv_fl rnd ((max p (EPSILON_fl rnd), max q (EPSILON_fl rnd)), floored_ratio_fl rnd p q, st)"
  by (simp add: mf_inv_fl_def floored_ratio_fl_def)

lemma mf_slot_joint_step_ok_fl:
  assumes al: "mf_joined np k1 k2"
    and inv: "mf_inv_fl rnd s"
  shows "mf_joint_step_ok_fl rnd this other np k1 k2 [i] s (mf_slot_fl rnd this other np s i)"
proof -
  obtain pp lg st where s: "s = (pp, lg, st)" by (cases s)
  let ?p = "node_pdf_fl rnd this k1 (nodeFactor np) i"
  let ?q = "node_pdf_fl rnd other k2 (otherNodeFactor np) i"
  note e = mf_slot_joined_fl[OF al, of rnd this other pp lg st i]
  show ?thesis
  proof (cases "\<not> joint_internal this other k1 k2 i")
    case leaf: True
    show ?thesis
    proof (cases "floored_ratio_fl rnd ?p ?q > lg")
      case True
      with leaf e have "mf_slot_fl rnd this other np s i =
        ((max ?p (EPSILON_fl rnd), max ?q (EPSILON_fl rnd)), floored_ratio_fl rnd ?p ?q, st)" by (simp add: s)
      with True leaf floored_ratio_inv_fl[of rnd ?p ?q st] show ?thesis
        by (simp add: mf_joint_step_ok_fl_def s)
    next
      case False
      with leaf e have "mf_slot_fl rnd this other np s i = s" by (simp add: s)
      with False leaf inv show ?thesis by (simp add: mf_joint_step_ok_fl_def s)
    qed
  next
    case False
    with e have "mf_slot_fl rnd this other np s i = (pp, lg, mf_joint_entry_fl rnd this other np k1 k2 i # st)"
      by (simp add: s)
    with False inv show ?thesis by (auto simp: mf_joint_step_ok_fl_def s mf_inv_fl_def)
  qed
qed

lemma mf_joint_step_ok_trans_fl:
  assumes "mf_joint_step_ok_fl rnd this other np k1 k2 xs s s1" and "mf_joint_step_ok_fl rnd this other np k1 k2 ys s1 s2"
  shows "mf_joint_step_ok_fl rnd this other np k1 k2 (xs @ ys) s s2"
proof -
  from assms have a: "mf_inv_fl rnd s2" "fst (snd s) \<le> fst (snd s2)"
    "set (snd (snd s)) \<subseteq> set (snd (snd s2))"
    by (auto simp: mf_joint_step_ok_fl_def)
  have b: "set (snd (snd s2)) \<subseteq> set (snd (snd s)) \<union>
        {mf_joint_entry_fl rnd this other np k1 k2 i | i. i \<in> set (xs @ ys) \<and> joint_internal this other k1 k2 i}"
  proof
    fix x assume x: "x \<in> set (snd (snd s2))"
    from assms(2) have s2: "set (snd (snd s2)) \<subseteq> set (snd (snd s1)) \<union>
        {mf_joint_entry_fl rnd this other np k1 k2 i | i. i \<in> set ys \<and> joint_internal this other k1 k2 i}"
      by (simp add: mf_joint_step_ok_fl_def)
    from assms(1) have s1: "set (snd (snd s1)) \<subseteq> set (snd (snd s)) \<union>
        {mf_joint_entry_fl rnd this other np k1 k2 i | i. i \<in> set xs \<and> joint_internal this other k1 k2 i}"
      by (simp add: mf_joint_step_ok_fl_def)
    from x s2 have "x \<in> set (snd (snd s1)) \<or>
      (\<exists>i. x = mf_joint_entry_fl rnd this other np k1 k2 i \<and> i \<in> set ys \<and> joint_internal this other k1 k2 i)"
      by blast
    then show "x \<in> set (snd (snd s)) \<union>
        {mf_joint_entry_fl rnd this other np k1 k2 i | i. i \<in> set (xs @ ys) \<and> joint_internal this other k1 k2 i}"
    proof
      assume "x \<in> set (snd (snd s1))"
      with s1 have "x \<in> set (snd (snd s)) \<or>
        (\<exists>i. x = mf_joint_entry_fl rnd this other np k1 k2 i \<and> i \<in> set xs \<and> joint_internal this other k1 k2 i)"
        by blast
      then show ?thesis by auto
    next
      assume "\<exists>i. x = mf_joint_entry_fl rnd this other np k1 k2 i \<and> i \<in> set ys \<and> joint_internal this other k1 k2 i"
      then show ?thesis by auto
    qed
  qed
  have c: "if \<not> joint_internal this other k1 k2 i
        then floored_ratio_fl rnd (node_pdf_fl rnd this k1 (nodeFactor np) i)
               (node_pdf_fl rnd other k2 (otherNodeFactor np) i) \<le> fst (snd s2)
        else mf_joint_entry_fl rnd this other np k1 k2 i \<in> set (snd (snd s2))"
    if "i \<in> set (xs @ ys)" for i
  proof (cases "i \<in> set ys")
    case True
    with assms(2) show ?thesis unfolding mf_joint_step_ok_fl_def by blast
  next
    case False
    with that have ix: "i \<in> set xs" by simp
    from assms(1) ix have 1: "if \<not> joint_internal this other k1 k2 i
        then floored_ratio_fl rnd (node_pdf_fl rnd this k1 (nodeFactor np) i)
               (node_pdf_fl rnd other k2 (otherNodeFactor np) i) \<le> fst (snd s1)
        else mf_joint_entry_fl rnd this other np k1 k2 i \<in> set (snd (snd s1))"
      unfolding mf_joint_step_ok_fl_def by blast
    from assms(2) have 2: "fst (snd s1) \<le> fst (snd s2)" "set (snd (snd s1)) \<subseteq> set (snd (snd s2))"
      by (auto simp: mf_joint_step_ok_fl_def)
    from 1 2 show ?thesis by (cases "\<not> joint_internal this other k1 k2 i") auto
  qed
  from a b c show ?thesis unfolding mf_joint_step_ok_fl_def by blast
qed

lemma foldl_mf_slot_joint_step_ok_fl:
  assumes al: "mf_joined np k1 k2"
  shows "mf_inv_fl rnd s \<Longrightarrow> is \<noteq> [] \<Longrightarrow>
         mf_joint_step_ok_fl rnd this other np k1 k2 is s (foldl (mf_slot_fl rnd this other np) s is)"
proof (induction "is" arbitrary: s)
  case Nil
  then show ?case by simp
next
  case (Cons i "is")
  let ?s1 = "mf_slot_fl rnd this other np s i"
  have 1: "mf_joint_step_ok_fl rnd this other np k1 k2 [i] s ?s1"
    using mf_slot_joint_step_ok_fl[OF al Cons.prems(1)] .
  show ?case
  proof (cases "is = []")
    case True
    with 1 show ?thesis by simp
  next
    case False
    from 1 have "mf_inv_fl rnd ?s1" by (simp add: mf_joint_step_ok_fl_def)
    from Cons.IH[OF this False]
    have "mf_joint_step_ok_fl rnd this other np k1 k2 is ?s1 (foldl (mf_slot_fl rnd this other np) ?s1 is)" .
    from mf_joint_step_ok_trans_fl[OF 1 this] show ?thesis by simp
  qed
qed

lemma mf_joint_entry_simps_fl [simp]:
  "mf_joined (mf_joint_entry_fl rnd this other np k1 k2 i) k1' k2' \<longleftrightarrow>
     k1' = child (this ! k1) i \<and> k2' = child (other ! k2) i"
  "nodeFactor (mf_joint_entry_fl rnd this other np k1 k2 i) = node_pdf_fl rnd this k1 (nodeFactor np) i"
  "otherNodeFactor (mf_joint_entry_fl rnd this other np k1 k2 i) = node_pdf_fl rnd other k2 (otherNodeFactor np) i"
  by (auto simp: mf_joint_entry_fl_def mf_joined_def)

lemma mf_loop_joint_covers_fl:
  assumes wf: "wf_nodes this" and wfo: "wf_nodes other"
  shows "mf_loop_fl rnd f this other s = Some res \<Longrightarrow> mf_inv_fl rnd s \<Longrightarrow>
         \<forall>np \<in> set (snd (snd s)). \<exists>k1 < length this. \<exists>k2 < length other. mf_joined np k1 k2 \<Longrightarrow>
         fst (snd s) \<le> rnd (snd res / fst res) \<and>
         (\<forall>np \<in> set (snd (snd s)). mf_joint_covered_fl rnd this other (rnd (snd res / fst res)) np)"
proof (induction f arbitrary: s)
  case 0
  obtain pp lg st where s: "s = (pp, lg, st)" by (cases s)
  with 0 show ?case by (cases st) (auto simp: mf_inv_fl_def)
next
  case (Suc f)
  obtain pp lg st where s: "s = (pp, lg, st)" by (cases s)
  show ?case
  proof (cases st)
    case Nil
    with Suc.prems s show ?thesis by (auto simp: mf_inv_fl_def)
  next
    case (Cons np rest)
    let ?r = "rnd (snd res / fst res)"
    let ?s' = "foldl (mf_slot_fl rnd this other np) (pp, lg, rest) [0, 1, 2, 3]"
    from Suc.prems(3) s Cons obtain k1 k2 where k1: "k1 < length this" and k2: "k2 < length other"
      and al: "mf_joined np k1 k2"
      by auto
    from Suc.prems(1) s Cons have r: "mf_loop_fl rnd f this other ?s' = Some res"
      by (auto split: if_splits)
    from Suc.prems(2) s have inv0: "mf_inv_fl rnd (pp, lg, rest)" by (simp add: mf_inv_fl_def)
    have ok: "mf_joint_step_ok_fl rnd this other np k1 k2 [0, 1, 2, 3] (pp, lg, rest) ?s'"
      by (rule foldl_mf_slot_joint_step_ok_fl[OF al inv0]) simp
    then have inv': "mf_inv_fl rnd ?s'" and lg: "lg \<le> fst (snd ?s')"
      and sup: "set rest \<subseteq> set (snd (snd ?s'))"
      and sub: "set (snd (snd ?s')) \<subseteq> set rest \<union>
        {mf_joint_entry_fl rnd this other np k1 k2 i | i. i \<in> set [0, 1, 2, 3] \<and> joint_internal this other k1 k2 i}"
      and slots: "\<forall>i \<in> set [0, 1, 2, 3].
        if \<not> joint_internal this other k1 k2 i
        then floored_ratio_fl rnd (node_pdf_fl rnd this k1 (nodeFactor np) i)
               (node_pdf_fl rnd other k2 (otherNodeFactor np) i) \<le> fst (snd ?s')
        else mf_joint_entry_fl rnd this other np k1 k2 i \<in> set (snd (snd ?s'))"
      by (simp_all add: mf_joint_step_ok_fl_def)
    have al': "\<forall>e \<in> set (snd (snd ?s')). \<exists>k1' < length this. \<exists>k2' < length other. mf_joined e k1' k2'"
    proof
      fix e assume "e \<in> set (snd (snd ?s'))"
      with sub have "e \<in> set rest \<or>
        (\<exists>i. e = mf_joint_entry_fl rnd this other np k1 k2 i \<and> i \<in> set [0, 1, 2, 3] \<and>
           joint_internal this other k1 k2 i)"
        by blast
      then show "\<exists>k1' < length this. \<exists>k2' < length other. mf_joined e k1' k2'"
      proof
        assume "e \<in> set rest"
        with Suc.prems(3) s Cons show ?thesis by simp
      next
        assume "\<exists>i. e = mf_joint_entry_fl rnd this other np k1 k2 i \<and> i \<in> set [0, 1, 2, 3] \<and>
                  joint_internal this other k1 k2 i"
        then obtain i where e: "e = mf_joint_entry_fl rnd this other np k1 k2 i" and i: "i < 4"
          and nl: "\<not> isLeaf (this ! k1) i" "\<not> isLeaf (other ! k2) i"
          by (auto simp: in_0123 joint_internal_def)
        from wf_nodes_child[OF wf k1 i nl(1)] have "child (this ! k1) i < length this" by simp
        moreover from wf_nodes_child[OF wfo k2 i nl(2)] have "child (other ! k2) i < length other"
          by simp
        ultimately show ?thesis using e by auto
      qed
    qed
    from Suc.IH[OF r inv' al'] have ih1: "fst (snd ?s') \<le> ?r"
      and ih2: "\<forall>e \<in> set (snd (snd ?s')). mf_joint_covered_fl rnd this other ?r e" by auto
    have 1: "lg \<le> ?r" using lg ih1 by simp
    have 2: "mf_joint_covered_fl rnd this other ?r np"
      unfolding mf_joint_covered_fl_def
    proof (intro allI impI)
      fix k1' k2' p q
      assume a: "mf_joined np k1' k2'"
        and lp: "joint_leaf_fl rnd this other k1' k2' (nodeFactor np) (otherNodeFactor np) p q"
      from mf_joined_unique[OF al a] have k': "k1' = k1" "k2' = k2" by auto
      from lp show "floored_ratio_fl rnd p q \<le> ?r" unfolding k'
      proof (cases rule: joint_leaf_fl.cases)
        case (jlf_leaf i)
        from jlf_leaf(3) have "i \<in> set [0, 1, 2, 3]" by (simp add: in_0123)
        with slots jlf_leaf(4) have "floored_ratio_fl rnd (node_pdf_fl rnd this k1 (nodeFactor np) i)
               (node_pdf_fl rnd other k2 (otherNodeFactor np) i) \<le> fst (snd ?s')" by auto
        with ih1 jlf_leaf(1,2) show ?thesis by simp
      next
        case (jlf_child i)
        from jlf_child(1) have "i \<in> set [0, 1, 2, 3]" by (simp add: in_0123)
        with slots jlf_child(2) have "mf_joint_entry_fl rnd this other np k1 k2 i \<in> set (snd (snd ?s'))"
          by auto
        with ih2 have "mf_joint_covered_fl rnd this other ?r (mf_joint_entry_fl rnd this other np k1 k2 i)" by blast
        with jlf_child(3) show ?thesis by (simp add: mf_joint_covered_fl_def)
      qed
    qed
    have 3: "\<forall>e \<in> set rest. mf_joint_covered_fl rnd this other ?r e" using sup ih2 by blast
    from 1 2 3 show ?thesis by (simp add: s Cons)
  qed
qed

lemma vmf_slots_aligned_fl:
  assumes sh: "same_shape this other" and k: "k < length this" and al: "vmf_aligned np k"
    and pass: "vmf_passes_fl rnd this other A np"
  shows "\<forall>i \<in> set is. i < 4 \<Longrightarrow>
         \<exists>news. vmf_slots_fl rnd this other A np st is = Some (news @ st) \<and> length news \<le> length is \<and>
           (\<forall>e \<in> set news. \<exists>i < 4. \<not> isLeaf (this ! k) i \<and> e = vmf_child_entry_fl rnd this other np k i)"
proof (induction "is" arbitrary: st)
  case Nil
  then show ?case by simp
next
  case (Cons i "is")
  from al have ni: "v_nodeIndex np = (k, - 1)" and oi: "v_otherNodeIndex np = (k, - 1)"
    by (auto simp: vmf_aligned_def)
  have l: "isLeaf (other ! k) i = isLeaf (this ! k) i" using same_shape_isLeaf[OF sh k] .
  have c: "child (other ! k) i = child (this ! k) i" using same_shape_child[OF sh k] .
  from Cons.prems have i: "i < 4" and rest: "\<forall>i \<in> set is. i < 4" by auto
  show ?case
  proof (cases "isLeaf (this ! k) i")
    case True
    from True have nj: "\<not> joint_internal this other k k i" by (simp add: joint_internal_def)
    from jlf_leaf[OF i nj, of rnd "v_nodeFactor np" "v_otherNodeFactor np"] pass al
    have "\<not> (rnd (rnd (A * node_pdf_fl rnd this k (v_nodeFactor np) i)
                   - node_pdf_fl rnd other k (v_otherNodeFactor np) i) < - EPSILON_fl rnd)"
      by (simp add: vmf_passes_fl_def)
    with True have "vmf_slots_fl rnd this other A np st (i # is) = vmf_slots_fl rnd this other A np st is"
      by (simp add: Let_def ni oi pair_denom_fl_def pair_slot_def l node_pdf_fl_def)
    with Cons.IH[OF rest, of st] show ?thesis by auto
  next
    case False
    then have e: "vmf_slots_fl rnd this other A np st (i # is) =
      vmf_slots_fl rnd this other A np (vmf_child_entry_fl rnd this other np k i # st) is"
      by (simp add: Let_def ni oi pair_denom_fl_def pair_slot_def l c node_pdf_fl_def
          next_index_def vmf_child_entry_fl_def)
    from Cons.IH[OF rest, of "vmf_child_entry_fl rnd this other np k i # st"] obtain news where
      n: "vmf_slots_fl rnd this other A np (vmf_child_entry_fl rnd this other np k i # st) is =
            Some (news @ vmf_child_entry_fl rnd this other np k i # st)"
      "length news \<le> length is"
      "\<forall>e \<in> set news. \<exists>i < 4. \<not> isLeaf (this ! k) i \<and> e = vmf_child_entry_fl rnd this other np k i"
      by blast
    show ?thesis
      using e n i False
      by (intro exI[of _ "news @ [vmf_child_entry_fl rnd this other np k i]"]) auto
  qed
qed

lemma vmf_loop_true_fl:
  assumes sh: "same_shape this other" and wf: "wf_nodes this"
  shows "\<forall>np \<in> set st. (\<exists>k < length this. vmf_aligned np k) \<and> vmf_passes_fl rnd this other A np \<Longrightarrow>
         vmf_measure this st \<le> f \<Longrightarrow> vmf_loop_fl rnd f this other A st = Some True"
proof (induction f arbitrary: st)
  case 0
  then have "st = []" by (cases st) (simp_all add: vmf_measure_def)
  then show ?case by simp
next
  case (Suc f)
  show ?case
  proof (cases st)
    case Nil
    then show ?thesis by simp
  next
    case (Cons np rest)
    from Suc.prems(1) Cons obtain k where k: "k < length this" and al: "vmf_aligned np k"
      and pass: "vmf_passes_fl rnd this other A np" by auto
    from al have ni: "v_nodeIndex np = (k, - 1)" and oi: "v_otherNodeIndex np = (k, - 1)"
      by (auto simp: vmf_aligned_def)
    have len: "length other = length this" using same_shape_length[OF sh] .
    from vmf_slots_aligned_fl[OF sh k al pass, of "[0, 1, 2, 3]" rest] obtain news where
      n: "vmf_slots_fl rnd this other A np rest [0, 1, 2, 3] = Some (news @ rest)"
      "length news \<le> 4"
      "\<forall>e \<in> set news. \<exists>i < 4. \<not> isLeaf (this ! k) i \<and> e = vmf_child_entry_fl rnd this other np k i"
      by auto
    have new_ok: "(\<exists>k' < length this. vmf_aligned e k') \<and> vmf_passes_fl rnd this other A e \<and>
                  length this - fst (v_nodeIndex e) < length this - k"
      if "e \<in> set news" for e
    proof -
      from n(3) that obtain i where i: "i < 4" and nl: "\<not> isLeaf (this ! k) i"
        and e: "e = vmf_child_entry_fl rnd this other np k i" by blast
      from wf_nodes_child[OF wf k i nl] have c: "k < child (this ! k) i" "child (this ! k) i < length this"
        by auto
      have a: "vmf_aligned e (child (this ! k) i)" by (simp add: e vmf_child_entry_fl_def vmf_aligned_def)
      have "vmf_passes_fl rnd this other A e"
        unfolding vmf_passes_fl_def
      proof (intro allI impI)
        fix k' p q assume a': "vmf_aligned e k'"
          and lp: "joint_leaf_fl rnd this other k' k' (v_nodeFactor e) (v_otherNodeFactor e) p q"
        from a a' have k': "k' = child (this ! k) i" by (simp add: vmf_aligned_def)
        have ji: "joint_internal this other k k i"
          using nl same_shape_isLeaf[OF sh k, of i] by (simp add: joint_internal_def)
        from lp have "joint_leaf_fl rnd this other (child (this ! k) i) (child (other ! k) i)
             (node_pdf_fl rnd this k (v_nodeFactor np) i) (node_pdf_fl rnd other k (v_otherNodeFactor np) i) p q"
          by (simp add: k' e vmf_child_entry_fl_def same_shape_child[OF sh k])
        from jlf_child[OF i ji this] pass al
        show "\<not> (rnd (rnd (A * p) - q) < - EPSILON_fl rnd)"
          by (simp add: vmf_passes_fl_def)
      qed
      moreover have "length this - fst (v_nodeIndex e) < length this - k"
        using c k by (simp add: e vmf_child_entry_fl_def)
      ultimately show ?thesis using a c by blast
    qed
    have ok': "\<forall>e \<in> set (news @ rest). (\<exists>k' < length this. vmf_aligned e k') \<and>
                vmf_passes_fl rnd this other A e"
      using new_ok Suc.prems(1) Cons by auto
    from sum_list_pow_bound[of news "\<lambda>e. length this - fst (v_nodeIndex e)" "length this - k"]
      new_ok
    have "vmf_measure this news * 5 \<le> length news * 5 ^ (length this - k)"
      by (simp add: vmf_measure_def)
    also have "\<dots> \<le> 4 * 5 ^ (length this - k)" using n(2) by simp
    finally have "vmf_measure this news * 5 \<le> 4 * 5 ^ (length this - k)" .
    moreover have "(0::nat) < 5 ^ (length this - k)" by simp
    ultimately have "vmf_measure this news < 5 ^ (length this - k)" by linarith
    with Suc.prems(2) Cons have m: "vmf_measure this (news @ rest) \<le> f"
      by (simp add: vmf_measure_def ni)
    from Suc.IH[OF ok' m] have "vmf_loop_fl rnd f this other A (news @ rest) = Some True" .
    with n(1) k len show ?thesis by (simp add: Cons ni oi)
  qed
qed

lemma mf_slot_pos_fl: "pair_pos_fl rnd s \<Longrightarrow> pair_pos_fl rnd (mf_slot_fl rnd this other np s i)"
  by (cases s) (auto simp: mf_slot_fl_def pair_pos_fl_def Let_def)

lemma foldl_mf_slot_pos_fl:
  "pair_pos_fl rnd s \<Longrightarrow> pair_pos_fl rnd (foldl (mf_slot_fl rnd this other np) s is)"
  by (induction "is" arbitrary: s) (simp_all add: mf_slot_pos_fl)

lemma mf_loop_pos_fl:
  "mf_loop_fl rnd f this other s = Some res \<Longrightarrow> pair_pos_fl rnd s \<Longrightarrow>
   EPSILON_fl rnd \<le> fst res \<and> EPSILON_fl rnd \<le> snd res"
proof (induction f arbitrary: s)
  case 0
  obtain pp lg st where s: "s = (pp, lg, st)" by (cases s)
  with 0 show ?case by (cases st) (auto simp: pair_pos_fl_def)
next
  case (Suc f)
  obtain pp lg st where s: "s = (pp, lg, st)" by (cases s)
  show ?case
  proof (cases st)
    case Nil
    with Suc.prems s show ?thesis by (auto simp: pair_pos_fl_def)
  next
    case (Cons np rest)
    let ?s' = "foldl (mf_slot_fl rnd this other np) (pp, lg, rest) [0, 1, 2, 3]"
    from Suc.prems(1) s Cons have r: "mf_loop_fl rnd f this other ?s' = Some res"
      by (auto split: if_splits)
    from Suc.prems(2) s have "pair_pos_fl rnd (pp, lg, rest)" by (simp add: pair_pos_fl_def)
    then have "pair_pos_fl rnd ?s'" by (rule foldl_mf_slot_pos_fl)
    from Suc.IH[OF r this] show ?thesis .
  qed
qed

lemma rounds_lower: "rounds_within rnd u \<Longrightarrow> 0 \<le> x \<Longrightarrow> x * (1 - u) \<le> rnd x"
proof -
  assume r: "rounds_within rnd u" and x: "0 \<le> x"
  then have "\<bar>rnd x - x\<bar> \<le> u * \<bar>x\<bar>" unfolding rounds_within_def by blast
  with x have "x - u * x \<le> rnd x" by (simp add: abs_le_iff)
  then show ?thesis by (simp add: algebra_simps)
qed

lemma rounds_upper: "rounds_within rnd u \<Longrightarrow> 0 \<le> x \<Longrightarrow> rnd x \<le> x * (1 + u)"
proof -
  assume r: "rounds_within rnd u" and x: "0 \<le> x"
  then have "\<bar>rnd x - x\<bar> \<le> u * \<bar>x\<bar>" unfolding rounds_within_def by blast
  with x have "rnd x \<le> x + u * x" by (simp add: abs_le_iff)
  then show ?thesis by (simp add: algebra_simps)
qed

lemma rounds_lower_neg: "rounds_within rnd u \<Longrightarrow> 0 \<le> y \<Longrightarrow> - (y * (1 + u)) \<le> rnd (- y)"
proof -
  assume r: "rounds_within rnd u" and y: "0 \<le> y"
  then have "\<bar>rnd (- y) - (- y)\<bar> \<le> u * \<bar>- y\<bar>" unfolding rounds_within_def by blast
  with y have "- y - u * y \<le> rnd (- y)" by (simp add: abs_le_iff)
  then show ?thesis by (simp add: algebra_simps)
qed

lemma unit_roundoff_small:
  fixes u :: real
  assumes "0 \<le> u" and "2 * u * (1 + u) \<le> 1"
  shows "u \<le> 1 / 2"
proof -
  from assms(1) have "0 \<le> 2 * u * u" by simp
  then have "2 * u \<le> 2 * u * (1 + u)" by (simp add: algebra_simps)
  with assms(2) show ?thesis by simp
qed

lemma EPSILON_fl_pos:
  assumes r: "rounds_within rnd u" and c: "2 * u * (1 + u) \<le> 1"
  shows "0 < EPSILON_fl rnd" and "EPSILON_fl rnd \<le> 1"
proof -
  from r have u0: "0 \<le> u" by (simp add: rounds_within_def)
  from unit_roundoff_small[OF u0 c] have u: "u \<le> 1 / 2" .
  from rounds_lower[OF r, of EPSILON] EPSILON_pos have l: "EPSILON * (1 - u) \<le> rnd EPSILON" by simp
  from u have "1 / 2 \<le> 1 - u" by simp
  with EPSILON_pos have "EPSILON * (1 / 2) \<le> EPSILON * (1 - u)" by (simp add: mult_left_mono)
  moreover have "0 < EPSILON * (1 / 2)" using EPSILON_pos by simp
  ultimately have "0 < rnd EPSILON" using l by linarith
  then show "0 < EPSILON_fl rnd" by (simp add: EPSILON_fl_def)
  from rounds_upper[OF r, of EPSILON] EPSILON_pos have "rnd EPSILON \<le> EPSILON * (1 + u)" by simp
  moreover from u EPSILON_pos have "EPSILON * (1 + u) \<le> EPSILON * 2" by (simp add: mult_left_mono)
  moreover have "EPSILON * 2 \<le> 1" by (simp add: EPSILON_def)
  ultimately show "EPSILON_fl rnd \<le> 1" by (simp add: EPSILON_fl_def)
qed

lemma rounded_majorizes:
  assumes mono: "rounds_monotone rnd" and r: "rounds_within rnd u" and c: "2 * u * (1 + u) \<le> 1"
    and e: "0 < e" and ep: "e \<le> p" and cap: "2 * u * (1 + u) * q \<le> e"
    and cov: "rnd (max q e / max p e) \<le> A"
  shows "\<not> rnd (rnd (A * p) - q) < - e"
proof -
  from r have u0: "0 \<le> u" by (simp add: rounds_within_def)
  from unit_roundoff_small[OF u0 c] have u: "u \<le> 1 / 2" .
  from e ep have p: "0 < p" and mp: "max p e = p" by simp_all
  define q' where "q' = max q e"
  have q'0: "0 < q'" and qq': "q \<le> q'" using e by (simp_all add: q'_def)
  have capq: "2 * u * (1 + u) * q' \<le> e"
  proof (cases "q \<le> e")
    case True
    then have "q' = e" by (simp add: q'_def)
    moreover have "(2 * u * (1 + u)) * e \<le> 1 * e"
      using c e by (intro mult_right_mono) simp_all
    ultimately show ?thesis by simp
  next
    case False
    then have "q' = q" by (simp add: q'_def)
    with cap show ?thesis by simp
  qed
  have x0: "0 \<le> q' / p" using q'0 p by simp
  from rounds_lower[OF r x0] cov have "q' / p * (1 - u) \<le> A" by (simp add: q'_def mp)
  then have "q' * (1 - u) / p \<le> A" by simp
  then have ap: "q' * (1 - u) \<le> A * p" using p by (simp add: pos_divide_le_eq)
  from u q'0 have "0 \<le> q' * (1 - u)" by simp
  with ap have ap0: "0 \<le> A * p" by linarith
  from rounds_lower[OF r ap0] have m1: "A * p * (1 - u) \<le> rnd (A * p)" .
  from ap u have "q' * (1 - u) * (1 - u) \<le> A * p * (1 - u)" by (simp add: mult_right_mono)
  with m1 have m: "q' * (1 - u) * (1 - u) \<le> rnd (A * p)" by linarith
  have "q' * (1 - u) * (1 - u) = q' - 2 * u * q' + u * u * q'" by (simp add: algebra_simps)
  moreover have "0 \<le> u * u * q'" using q'0 by simp
  ultimately have "q' - 2 * u * q' \<le> q' * (1 - u) * (1 - u)" by linarith
  with m qq' have d: "- (2 * u * q') \<le> rnd (A * p) - q" by linarith
  from mono d have "rnd (- (2 * u * q')) \<le> rnd (rnd (A * p) - q)"
    by (simp add: rounds_monotone_def)
  moreover have "0 \<le> 2 * u * q'" using u0 q'0 by simp
  from rounds_lower_neg[OF r this] have "- (2 * u * q' * (1 + u)) \<le> rnd (- (2 * u * q'))" .
  moreover have "2 * u * q' * (1 + u) = 2 * u * (1 + u) * q'" by simp
  ultimately have "- e \<le> rnd (rnd (A * p) - q)" using capq by linarith
  then show ?thesis by simp
qed

lemma joint_leaf_in_joint_pdfs_fl:
  assumes "joint_leaf_fl rnd this other k1 k2 f1 f2 p q" and wf: "wf_nodes this" and wfo: "wf_nodes other"
    and k: "k1 < length this" "k2 < length other"
  shows "length this - k1 \<le> d \<Longrightarrow> (p, q) \<in> set (joint_pdfs_fl rnd d this other k1 k2 f1 f2)"
  using assms(1) k
proof (induction arbitrary: d rule: joint_leaf_fl.induct)
  case (jlf_leaf i k1 k2 f1 f2)
  then obtain d' where d: "d = Suc d'" by (cases d) auto
  from jlf_leaf(1) have "i \<in> set [0, 1, 2, 3::nat]" by auto
  with jlf_leaf(2) show ?case unfolding d by (auto simp: Let_def)
next
  case (jlf_child i k1 k2 f1 f2 p q)
  then obtain d' where d: "d = Suc d'" by (cases d) auto
  note c = joint_internal_children[OF wf wfo jlf_child.prems(2,3) jlf_child.hyps(1,2)]
  with jlf_child.prems(1) d have "length this - child (this ! k1) i \<le> d'" by simp
  from jlf_child.IH[OF this c(2) c(4)]
  have m: "(p, q) \<in> set (joint_pdfs_fl rnd d' this other (child (this ! k1) i) (child (other ! k2) i)
                  (node_pdf_fl rnd this k1 f1 i) (node_pdf_fl rnd other k2 f2 i))" .
  from jlf_child.hyps(1) have "i \<in> set [0, 1, 2, 3::nat]" by auto
  with jlf_child.hyps(2) m show ?case unfolding d by (auto simp: Let_def)
qed

lemma joint_pdfs_fl_leaf:
  "(p, q) \<in> set (joint_pdfs_fl rnd d this other k1 k2 f1 f2) \<Longrightarrow>
   joint_leaf_fl rnd this other k1 k2 f1 f2 p q"
proof (induction d arbitrary: k1 k2 f1 f2)
  case 0
  then show ?case by simp
next
  case (Suc d)
  from Suc.prems obtain i where i: "i \<in> set [0, 1, 2, 3::nat]"
    and m: "(p, q) \<in> set (if joint_internal this other k1 k2 i
          then joint_pdfs_fl rnd d this other (child (this ! k1) i) (child (other ! k2) i)
                 (node_pdf_fl rnd this k1 f1 i) (node_pdf_fl rnd other k2 f2 i)
          else [(node_pdf_fl rnd this k1 f1 i, node_pdf_fl rnd other k2 f2 i)])"
    by (auto simp: Let_def)
  from i have i4: "i < 4" by auto
  show ?case
  proof (cases "joint_internal this other k1 k2 i")
    case True
    with m have "(p, q) \<in> set (joint_pdfs_fl rnd d this other (child (this ! k1) i)
                 (child (other ! k2) i) (node_pdf_fl rnd this k1 f1 i) (node_pdf_fl rnd other k2 f2 i))"
      by simp
    from jlf_child[OF i4 True Suc.IH[OF this]] show ?thesis .
  next
    case False
    with m have "p = node_pdf_fl rnd this k1 f1 i" "q = node_pdf_fl rnd other k2 f2 i" by simp_all
    with jlf_leaf[OF i4 False, of rnd f1 f2] show ?thesis by simp
  qed
qed

text \<open>
  Claim C1, as amended. The arithmetic is rounded: \<open>rnd\<close> is monotone with unit
  roundoff \<open>u\<close> (\<open>2 * u * (1 + u) \<le> 1\<close>). For two trees of the same topology, the current
  one well-formed, such that at every leaf the computed pdf \<open>p\<close> of the current tree is
  at least \<^verbatim>\<open>EPSILON\<close> and the computed pdf \<open>q\<close> of the previous tree satisfies
  \<open>2 * u * (1 + u) * q \<le> EPSILON\<close>: \<^verbatim>\<open>getMajorizingFactor\<close> returns a pair, \<open>A\<close> is the
  rounded quotient of its components, the computed difference \<open>A * p - q\<close> is at least
  \<open>- EPSILON\<close> at every leaf, and \<^verbatim>\<open>validateMajorizingFactor\<close> returns true. Without the
  bound on \<open>q\<close> the rounding error of \<open>A * p\<close> can exceed \<^verbatim>\<open>EPSILON\<close> and the validation
  can fail although \<open>A\<close> is the largest computed ratio.
\<close>

theorem majorizing_factor_rounded:
  assumes mono: "rounds_monotone rnd" and r: "rounds_within rnd u" and c: "2 * u * (1 + u) \<le> 1"
    and wf: "wf_nodes (m_nodes currT)"
    and sh: "same_shape (m_nodes currT) (m_nodes prevT)"
    and lb: "leaves_bounded rnd u (m_nodes currT) (m_nodes prevT)"
    and fuel: "5 ^ (length (m_nodes currT) + length (m_nodes prevT)) \<le> fuel"
  shows "\<exists>pair. getMajorizingFactor_fl rnd fuel currT prevT = Some pair \<and>
           majorizingA_fl rnd pair = rnd (snd pair / fst pair) \<and>
           (\<forall>pq \<in> set (joint_pdfs_fl rnd (length (m_nodes currT)) (m_nodes currT) (m_nodes prevT)
                          0 0 1 1).
              - EPSILON_fl rnd \<le> rnd (rnd (majorizingA_fl rnd pair * fst pq) - snd pq)) \<and>
           validateMajorizingFactor_fl rnd fuel currT prevT (majorizingA_fl rnd pair) = Some True"
proof -
  let ?ns = "m_nodes currT" and ?os = "m_nodes prevT"
  let ?e = "EPSILON_fl rnd"
  let ?rootM = "\<lparr>nodeIndex = (0, - 1), otherNodeIndex = (0, - 1), nodeFactor = 1,
      otherNodeFactor = 1, nodeLevel = 0, otherNodeLevel = 0\<rparr>"
  let ?rootV = "\<lparr>v_nodeIndex = (0, - 1), v_otherNodeIndex = (0, - 1),
         v_nodeFactor = 1, v_otherNodeFactor = 1\<rparr>"
  note e = EPSILON_fl_pos[OF r c]
  from r have u0: "0 \<le> u" by (simp add: rounds_within_def)
  from unit_roundoff_small[OF u0 c] have u: "u \<le> 1 / 2" .
  have wfo: "wf_nodes ?os" using wf_nodes_shape[OF wf sh] .
  have l0: "0 < length ?ns" using wf_nodes_length[OF wf] .
  have lo: "0 < length ?os" using wf_nodes_length[OF wfo] .
  have okM: "\<forall>e \<in> set [?rootM]. mf_entry_ok ?ns ?os e"
    using l0 lo by (simp add: mf_entry_ok_def)
  have mM: "mf_measure ?ns ?os [?rootM] \<le> fuel"
    using fuel by (simp add: mf_measure_def mf_rank_def)
  from mf_loop_total_fl[OF wf wfo okM mM, of rnd "(1, 1)" 0] obtain pair where
    loop: "mf_loop_fl rnd fuel ?ns ?os ((1, 1), 0, [?rootM]) = Some pair" by blast
  then have g: "getMajorizingFactor_fl rnd fuel currT prevT = Some pair"
    by (simp add: getMajorizingFactor_fl_def)
  let ?A = "majorizingA_fl rnd pair"
  have "pair_pos_fl rnd ((1, 1), 0, [?rootM])" using e(2) by (simp add: pair_pos_fl_def)
  from mf_loop_pos_fl[OF loop this] have ge: "?e \<le> fst pair" by simp
  then have A: "?A = rnd (snd pair / fst pair)" by (simp add: majorizingA_fl_def)
  from rounds_lower[OF r, of 1] u have "0 \<le> rnd 1" by simp
  with e(2) have inv: "mf_inv_fl rnd ((1, 1), 0, [?rootM])" by (simp add: mf_inv_fl_def)
  have alM: "\<forall>np \<in> set (snd (snd ((1, 1), 0 :: real, [?rootM]))).
               \<exists>k1 < length ?ns. \<exists>k2 < length ?os. mf_joined np k1 k2"
    using l0 lo by (simp add: mf_joined_def)
  from mf_loop_joint_covers_fl[OF wf wfo loop inv alM]
  have "mf_joint_covered_fl rnd ?ns ?os ?A ?rootM" by (simp add: A)
  then have cov: "floored_ratio_fl rnd p q \<le> ?A" if "joint_leaf_fl rnd ?ns ?os 0 0 1 1 p q" for p q
    using that by (simp add: mf_joint_covered_fl_def mf_joined_def)
  have maj: "\<not> rnd (rnd (?A * p) - q) < - ?e" if jl: "joint_leaf_fl rnd ?ns ?os 0 0 1 1 p q" for p q
  proof -
    from joint_leaf_in_joint_pdfs_fl[OF jl wf wfo l0 lo, of "length ?ns"] lb
    have pe: "?e \<le> p" and cap: "2 * u * (1 + u) * q \<le> ?e"
      by (auto simp: leaves_bounded_def)
    from cov[OF jl] have "rnd (max q ?e / max p ?e) \<le> ?A" by (simp add: floored_ratio_fl_def)
    from rounded_majorizes[OF mono r c e(1) pe cap this] show ?thesis .
  qed
  have lv: "\<forall>pq \<in> set (joint_pdfs_fl rnd (length ?ns) ?ns ?os 0 0 1 1).
              - ?e \<le> rnd (rnd (?A * fst pq) - snd pq)"
  proof
    fix pq assume m: "pq \<in> set (joint_pdfs_fl rnd (length ?ns) ?ns ?os 0 0 1 1)"
    obtain p q where pq: "pq = (p, q)" by (cases pq)
    from joint_pdfs_fl_leaf[OF m[unfolded pq]] have "joint_leaf_fl rnd ?ns ?os 0 0 1 1 p q" .
    from maj[OF this] show "- ?e \<le> rnd (rnd (?A * fst pq) - snd pq)" by (simp add: pq)
  qed
  have pass: "vmf_passes_fl rnd ?ns ?os ?A ?rootV"
    unfolding vmf_passes_fl_def
  proof (intro allI impI)
    fix k p q assume a: "vmf_aligned ?rootV k"
      and lp: "joint_leaf_fl rnd ?ns ?os k k (v_nodeFactor ?rootV) (v_otherNodeFactor ?rootV) p q"
    from a have k: "k = 0" by (simp add: vmf_aligned_def)
    from lp have "joint_leaf_fl rnd ?ns ?os 0 0 1 1 p q" by (simp add: k)
    from maj[OF this] show "\<not> rnd (rnd (?A * p) - q) < - ?e" .
  qed
  have ok: "\<forall>np \<in> set [?rootV]. (\<exists>k < length ?ns. vmf_aligned np k) \<and>
              vmf_passes_fl rnd ?ns ?os ?A np"
    using l0 pass by (simp add: vmf_aligned_def)
  have "(5::nat) ^ length ?ns \<le> 5 ^ (length ?ns + length ?os)"
    by (rule power_increasing) simp_all
  with fuel have "(5::nat) ^ length ?ns \<le> fuel" by linarith
  then have m: "vmf_measure ?ns [?rootV] \<le> fuel" by (simp add: vmf_measure_def)
  from vmf_loop_true_fl[OF sh wf ok m]
  have "validateMajorizingFactor_fl rnd fuel currT prevT ?A = Some True"
    by (simp add: validateMajorizingFactor_fl_def)
  with g A lv show ?thesis by blast
qed

lemma rounds_monotone_chop24: "rounds_monotone chop24"
  by (simp add: rounds_monotone_def chop24_def)

lemma rounds_within_chop24: "rounds_within chop24 (1 / 2 ^ 24)"
  by (simp add: rounds_within_def chop24_def abs_mult)

lemma leaves_bounded_refined:
  "leaves_bounded chop24 (1 / 2 ^ 24) (m_nodes treeRefined) (m_nodes treeRefinedEven)"
  by (simp add: leaves_bounded_def node_pdf_fl_def slot_pdf_fl_def sum_total_fl_def
      EPSILON_fl_def EPSILON_def chop24_def joint_internal_def isLeaf_def child_def sum_at_def
      treeRefined_def treeRefinedEven_def)

theorem majorizing_factor_rounded_witness:
  "rounds_monotone chop24 \<and> rounds_within chop24 (1 / 2 ^ 24) \<and>
   2 * (1 / 2 ^ 24) * (1 + 1 / 2 ^ 24) \<le> (1::real) \<and>
   wf_nodes (m_nodes treeRefined) \<and>
   same_shape (m_nodes treeRefined) (m_nodes treeRefinedEven) \<and>
   leaves_bounded chop24 (1 / 2 ^ 24) (m_nodes treeRefined) (m_nodes treeRefinedEven) \<and>
   (\<exists>pair. getMajorizingFactor_fl chop24 625 treeRefined treeRefinedEven = Some pair \<and>
      majorizingA_fl chop24 pair = chop24 (snd pair / fst pair) \<and>
      validateMajorizingFactor_fl chop24 625 treeRefined treeRefinedEven
        (majorizingA_fl chop24 pair) = Some True)"
proof -
  have c: "2 * (1 / 2 ^ 24) * (1 + 1 / 2 ^ 24) \<le> (1::real)" by simp
  have fu: "5 ^ (length (m_nodes treeRefined) + length (m_nodes treeRefinedEven)) \<le> (625::nat)"
    by (simp add: treeRefined_def treeRefinedEven_def)
  from majorizing_factor_rounded[OF rounds_monotone_chop24 rounds_within_chop24 c
      wf_treeRefined same_shape_refined leaves_bounded_refined fu]
  have "\<exists>pair. getMajorizingFactor_fl chop24 625 treeRefined treeRefinedEven = Some pair \<and>
      majorizingA_fl chop24 pair = chop24 (snd pair / fst pair) \<and>
      validateMajorizingFactor_fl chop24 625 treeRefined treeRefinedEven
        (majorizingA_fl chop24 pair) = Some True"
    by blast
  with rounds_monotone_chop24 rounds_within_chop24 c wf_treeRefined same_shape_refined
    leaves_bounded_refined
  show ?thesis by blast
qed

section \<open>Verification of the augmented distribution in rounded arithmetic\<close>

















lemma build_slot_None_fl [simp]: "build_slot_fl rnd rec idx None i = None"
  by (simp add: build_slot_fl_def)

lemma foldl_build_slot_None_fl [simp]: "foldl (build_slot_fl rnd rec idx) None is = None"
  by (induction "is") simp_all















lemma EPSILON_fl_exact [simp]: "EPSILON_fl (\<lambda>x. x) = EPSILON"
  by (simp add: EPSILON_fl_def)

lemma sum_total_fl_exact [simp]: "sum_total_fl (\<lambda>x. x) n = sum_total n"
  by (simp add: sum_total_fl_def sum_total_def)

lemma pair_denom_fl_exact [simp]: "pair_denom_fl (\<lambda>x. x) node second = pair_denom node second"
  by (simp add: pair_denom_fl_def pair_denom_def)

lemma slot_pdf_fl_exact [simp]: "slot_pdf_fl (\<lambda>x. x) factor node denom ci = slot_pdf factor node denom ci"
  by (simp add: slot_pdf_fl_def slot_pdf_def)

lemma mf_slot_fl_exact [simp]: "mf_slot_fl (\<lambda>x. x) this other np = mf_slot this other np"
  unfolding mf_slot_fl_def mf_slot_def pair_denom_fl_exact slot_pdf_fl_exact EPSILON_fl_exact
  by (rule refl)

lemma mf_loop_fl_exact [simp]: "mf_loop_fl (\<lambda>x. x) fuel this other s = mf_loop fuel this other s"
  by (induction fuel this other s rule: mf_loop.induct) simp_all



lemma computeAugmentedPdf_fl_exact [simp]:
  "computeAugmentedPdf_fl (\<lambda>x. x) oldPdf newPdf A = computeAugmentedPdf oldPdf newPdf A"
  by (simp add: computeAugmentedPdf_fl_def computeAugmentedPdf_def)

lemma ba_slot_fl_exact [simp]: "ba_slot_fl (\<lambda>x. x) oldDist newDist A np = ba_slot oldDist newDist A np"
  unfolding ba_slot_fl_def ba_slot_def pair_denom_fl_exact slot_pdf_fl_exact
    computeAugmentedPdf_fl_exact
  by (rule refl)







lemma ci_slot_fl_exact [simp]: "ci_slot_fl (\<lambda>x. x) curr_node factor = ci_slot curr_node factor"
  unfolding ci_slot_fl_def ci_slot_def by (rule refl)

lemma ci_loop_fl_exact [simp]: "ci_loop_fl (\<lambda>x. x) fuel nodes s = ci_loop fuel nodes s"
  by (induction fuel nodes s rule: ci_loop.induct) simp_all

lemma computeIntegral_fl_exact [simp]: "computeIntegral_fl (\<lambda>x. x) fuel t = computeIntegral fuel t"
  by (simp add: computeIntegral_fl_def computeIntegral_def)







text \<open>
  With the rounding function \<open>chop24\<close>, the old sums 3, 1, 2, 2 and the new sums
  1, 1, 1, 1, for which exact arithmetic gives \<open>B = 1 / 2\<close> and the integral 1, give a
  \<open>B\<close> below \<open>1 / 2\<close> and an integral below 1: the equality of the integral with 1
  is a fact of exact arithmetic.
\<close>

lemma buildAugmented_rounded_fuel:
  "map_option
     (\<lambda>r. (snd r < 1 / 2,
           map_option (\<lambda>v. v < 1) (computeIntegral_fl chop24 (Suc (Suc (Suc f))) (fst r))))
     (buildAugmented_fl chop24 (Suc (Suc (Suc f))) DTree_new treeSkewed treeFlat)
   = Some (True, Some True)"
  by (simp add: buildAugmented_fl_def majorizingA_fl_def computeAugmentedPdf_fl_def ba_slot_fl_def
        DTree_build_fl_def build_slot_fl_def sum4_fl_def computeIntegral_fl_def ci_slot_fl_def
        setChild_def setSum_def setSumAll_def QuadTreeNode_new_def DTree_new_def
        getMajorizingFactor_fl_def mf_slot_fl_def Let_def pair_denom_fl_def pair_slot_def
        slot_pdf_fl_def sum_total_fl_def sum_at_def isLeaf_def child_def next_index_def
        treeSkewed_def treeFlat_def EPSILON_fl_def EPSILON_def chop24_def)

lemma buildAugmented_rounded_example:
  "map_option
     (\<lambda>r. (snd r < 1 / 2, map_option (\<lambda>v. v < 1) (computeIntegral_fl chop24 625 (fst r))))
     (buildAugmented_fl chop24 625 DTree_new treeSkewed treeFlat)
   = Some (True, Some True)"
proof -
  have e: "Suc (Suc (Suc 622)) = 625" by simp
  show ?thesis using buildAugmented_rounded_fuel[of 622] unfolding e .
qed

end
